theory Spec2Isabelle
  imports Complex_Main "HOL-Library.AList"
begin

section \<open>Data model (types.ts)\<close>

text \<open>
  The status of a batch item is the string union of \<^verbatim>\<open>BatchImage.status\<close>.
\<close>

datatype status = Pending | Processing | Completed | Error

text \<open>
  \<^verbatim>\<open>BatchImage\<close>: the optional \<^verbatim>\<open>processedText\<close> is an option; \<^verbatim>\<open>progress\<close> is a
  JavaScript number that the pipeline only stores, never computes with. The field
  \<^verbatim>\<open>id\<close> is called \<open>imgId\<close> here; the blob \<^verbatim>\<open>file\<close> is never read by the pipeline and
  is left out.
\<close>

record BatchImage =
  imgId :: string
  previewUrl :: string
  processedText :: "string option"
  status :: status
  progress :: real

section \<open>The transcription call (services/ocrService.ts and its later revision)\<close>

text \<open>
  Everything \<^verbatim>\<open>processImageOCR\<close> obtains from outside is collected in \<open>ocrEnv\<close>: whether
  the image loads, whether the canvas yields a 2d context, and what the backend call
  does (it throws, or it answers with a \<^verbatim>\<open>response.text\<close> that is a string or
  undefined). The pixel loop changes image data only and is not part of the control flow.
\<close>

datatype error = ImageLoadFailed | NoCanvasContext | ApiKeyMissing | ExtractFailed

datatype backend = BackendThrows | BackendResponse "string option"

record ocrEnv =
  imageLoads :: bool
  hasContext :: bool
  backend :: backend

definition NO_TEXT :: string where
  "NO_TEXT = ''No text detected in the image.''"

text \<open>JavaScript \<^verbatim>\<open>a || b\<close> on an optional string: undefined and the empty string are falsy.\<close>

definition orElse :: "string option \<Rightarrow> string \<Rightarrow> string" where
  "orElse a b = (case a of None \<Rightarrow> b | Some t \<Rightarrow> if t = [] then b else t)"

text \<open>
  The result is the list of values passed to \<^verbatim>\<open>onProgress\<close>, in call order, and the
  settled promise: \<open>Inl\<close> a rejection, \<open>Inr\<close> the resolved text.
  \<open>processImageOCR\<close> is services/ocrService.ts; \<open>processImageOCR_resized\<close> is the
  revision that scales large images first and reports 0.3 instead of 0.2.
\<close>

definition processImageOCR :: "ocrEnv \<Rightarrow> string \<Rightarrow> real list \<times> (error + string)" where
  "processImageOCR env key =
     (if \<not> imageLoads env then ([], Inl ImageLoadFailed)
      else if \<not> hasContext env then ([], Inl NoCanvasContext)
      else if key = [] then ([2 / 10], Inl ApiKeyMissing)
      else case backend env of
             BackendThrows \<Rightarrow> ([2 / 10], Inl ExtractFailed)
           | BackendResponse txt \<Rightarrow> ([2 / 10, 1], Inr (orElse txt NO_TEXT)))"

definition processImageOCR_resized :: "ocrEnv \<Rightarrow> string \<Rightarrow> real list \<times> (error + string)" where
  "processImageOCR_resized env key =
     (if \<not> imageLoads env then ([], Inl ImageLoadFailed)
      else if \<not> hasContext env then ([], Inl NoCanvasContext)
      else if key = [] then ([3 / 10], Inl ApiKeyMissing)
      else case backend env of
             BackendThrows \<Rightarrow> ([3 / 10], Inl ExtractFailed)
           | BackendResponse txt \<Rightarrow> ([3 / 10, 1], Inr (orElse txt NO_TEXT)))"

section \<open>The batch pipeline (startBatchProcess in the application component)\<close>

text \<open>An element of \<^verbatim>\<open>pendingItems\<close>: the object \<^verbatim>\<open>{ img, index }\<close>.\<close>

record item =
  img :: BatchImage
  index :: nat

text \<open>
  A worker is one call of \<^verbatim>\<open>runWorker\<close>. Between two atomic segments of JavaScript it
  is suspended in \<^verbatim>\<open>processItem\<close> on the transcription call of an item, or it is about
  to evaluate the loop condition, or it has returned.
\<close>

datatype worker = Awaiting item | AtLoopHead | Finished

text \<open>
  The component state that \<^verbatim>\<open>startBatchProcess\<close> reads and writes, followed by the local
  variables of its one active invocation. \<^verbatim>\<open>completedTexts\<close> is a JavaScript Map: a
  list of entries with distinct keys. \<open>portCalls\<close> is an instrument, not program state:
  the log of transcription calls, newest last, as pairs of worker and item index.
  The OCR configuration is handed to the port unread, and the remaining component state
  (selected index, theme, camera and export flags) is not touched by the pipeline.
\<close>

record state =
  images :: "BatchImage list"
  finalText :: string
  isProcessing :: bool
  showKeyModal :: bool
  apiKey :: string
  pendingItems :: "item list"
  nextIndexToAppend :: nat
  completedTexts :: "(nat \<times> string) list"
  queuePointer :: nat
  workers :: "worker list"
  portCalls :: "(nat \<times> nat) list"

definition CONCURRENCY_LIMIT :: nat where
  "CONCURRENCY_LIMIT = 3"

definition PLACEHOLDER :: string where
  "PLACEHOLDER = ''[Error: Failed to process this page]''"

text \<open>The separator \<^verbatim>\<open>'\n\n'\<close>.\<close>

definition BLANK_LINE :: string where
  "BLANK_LINE = [CHR 0x0A, CHR 0x0A]"

text \<open>
  \<^verbatim>\<open>prev.map((img, i) => i === index ? f(img) : img)\<close>: an index beyond the list changes
  nothing.
\<close>

definition mapAt :: "nat \<Rightarrow> (BatchImage \<Rightarrow> BatchImage) \<Rightarrow> BatchImage list \<Rightarrow> BatchImage list" where
  "mapAt idx f imgs = map (\<lambda>(i, im). if i = idx then f im else im) (enumerate 0 imgs)"

text \<open>\<^verbatim>\<open>images.map((img, index) => ({ img, index })).filter(item => item.img.status !== 'completed')\<close>\<close>

definition pendingItemsOf :: "BatchImage list \<Rightarrow> item list" where
  "pendingItemsOf imgs =
     filter (\<lambda>it. status (img it) \<noteq> Completed)
       (map (\<lambda>(i, im). \<lparr>img = im, index = i\<rparr>) (enumerate 0 imgs))"

text \<open>
  One step of the body of the \<^verbatim>\<open>while\<close> loop in \<^verbatim>\<open>tryAppendText\<close>: a falsy (empty) chunk is
  not appended; a non-empty one is preceded by the separator when the text so far is
  non-empty.
\<close>

definition appendChunk :: "string \<Rightarrow> string \<Rightarrow> string" where
  "appendChunk newText textChunk =
     (if textChunk \<noteq> [] then (if newText \<noteq> [] then newText @ BLANK_LINE @ textChunk else textChunk)
      else newText)"

text \<open>
  The loop of \<^verbatim>\<open>tryAppendText\<close> on the map, the frontier and the text. It ends because
  every round deletes an entry of the map.
\<close>

function tryAppendLoop :: "(nat \<times> string) list \<Rightarrow> nat \<Rightarrow> string \<Rightarrow> (nat \<times> string) list \<times> nat \<times> string" where
  "tryAppendLoop ct n newText =
     (case map_of ct n of
        None \<Rightarrow> (ct, n, newText)
      | Some textChunk \<Rightarrow> tryAppendLoop (AList.delete n ct) (Suc n) (appendChunk newText textChunk))"
  by pat_completeness auto
termination
  by (relation "measure (\<lambda>(ct, n, t). length ct)")
     (auto simp: AList.delete_eq intro!: length_filter_less dest!: map_of_SomeD)

text \<open>
  \<^verbatim>\<open>tryAppendText\<close>: the updater handed to \<^verbatim>\<open>setFinalText\<close> is applied where it is
  enqueued (updaters run in the order they were enqueued).
\<close>

definition tryAppendText :: "state \<Rightarrow> state" where
  "tryAppendText s =
     (case tryAppendLoop (completedTexts s) (nextIndexToAppend s) (finalText s) of
        (ct, n, t) \<Rightarrow> s\<lparr>finalText := t, nextIndexToAppend := n, completedTexts := ct\<rparr>)"

text \<open>
  \<^verbatim>\<open>processItem\<close> up to its \<^verbatim>\<open>await\<close>: step 1 and the call of the transcription port by
  worker \<open>w\<close>, which then waits for it.
\<close>

definition processItem_begin :: "nat \<Rightarrow> item \<Rightarrow> state \<Rightarrow> state" where
  "processItem_begin w it s =
     s\<lparr>images := mapAt (index it) (\<lambda>im. im\<lparr>status := Processing\<rparr>) (images s),
       portCalls := portCalls s @ [(w, index it)],
       workers := (workers s)[w := Awaiting it]\<rparr>"

text \<open>The progress callback handed to the transcription port.\<close>

definition onProgress :: "item \<Rightarrow> real \<Rightarrow> state \<Rightarrow> state" where
  "onProgress it p s = s\<lparr>images := mapAt (index it) (\<lambda>im. im\<lparr>progress := p\<rparr>) (images s)\<rparr>"

text \<open>
  \<^verbatim>\<open>processItem\<close> after the \<^verbatim>\<open>await\<close>: steps 3 and 4 on a resolved call, the \<^verbatim>\<open>catch\<close>
  block on a rejected one, then the \<^verbatim>\<open>finally\<close> block. Worker \<open>w\<close> is back at its loop.
\<close>

definition processItem_settle :: "nat \<Rightarrow> item \<Rightarrow> error + string \<Rightarrow> state \<Rightarrow> state" where
  "processItem_settle w it r s =
     (case r of
        Inr text \<Rightarrow>
          tryAppendText
            (s\<lparr>images := mapAt (index it) (\<lambda>im. im\<lparr>status := Completed, processedText := Some text\<rparr>) (images s),
               completedTexts := AList.update (index it) text (completedTexts s),
               workers := (workers s)[w := AtLoopHead]\<rparr>)
      | Inl err \<Rightarrow>
          tryAppendText
            (s\<lparr>images := mapAt (index it) (\<lambda>im. im\<lparr>status := Error\<rparr>) (images s),
               completedTexts := AList.update (index it) PLACEHOLDER (completedTexts s),
               workers := (workers s)[w := AtLoopHead]\<rparr>))"

text \<open>
  \<^verbatim>\<open>runWorker\<close> from the loop condition to the next suspension: claim the next item and
  start it, or return.
\<close>

definition runWorker :: "nat \<Rightarrow> state \<Rightarrow> state" where
  "runWorker w s =
     (if queuePointer s < length (pendingItems s)
      then processItem_begin w (pendingItems s ! queuePointer s) (s\<lparr>queuePointer := Suc (queuePointer s)\<rparr>)
      else s\<lparr>workers := (workers s)[w := Finished]\<rparr>)"

text \<open>
  \<^verbatim>\<open>startBatchProcess\<close> up to \<^verbatim>\<open>await Promise.all(workers)\<close>: the guards, the pending
  items, the local variables, and the synchronous first segment of each worker.
\<close>

definition startBatchProcess :: "state \<Rightarrow> state" where
  "startBatchProcess s =
     (if isProcessing s then s
      else if apiKey s = [] then s\<lparr>showKeyModal := True\<rparr>
      else
        (case pendingItemsOf (images s) of
           [] \<Rightarrow> (s\<lparr>isProcessing := True\<rparr>)\<lparr>isProcessing := False\<rparr>
         | first # rest \<Rightarrow>
             foldl (\<lambda>t w. runWorker w t)
               (s\<lparr>isProcessing := True,
                  pendingItems := first # rest,
                  nextIndexToAppend := index first,
                  completedTexts := [],
                  queuePointer := 0,
                  workers := replicate (min CONCURRENCY_LIMIT (length (first # rest))) AtLoopHead,
                  portCalls := []\<rparr>)
               [0 ..< min CONCURRENCY_LIMIT (length (first # rest))]))"

text \<open>
  What can happen while the run waits: the transcription call of worker \<open>w\<close> reports
  progress or settles, a worker whose item is done resumes its loop, or all workers have
  returned and \<^verbatim>\<open>Promise.all\<close> resolves.
\<close>

datatype event = Progress nat real | Settle nat | Resume nat | Join

definition workerAt :: "state \<Rightarrow> nat \<Rightarrow> worker option" where
  "workerAt s w = (if w < length (workers s) then Some (workers s ! w) else None)"

text \<open>
  The transcription port is a black box: \<open>port i\<close> is how the call for the item at index
  \<open>i\<close> settles. An event that cannot happen in a state gives \<open>None\<close>.
\<close>

fun step :: "(nat \<Rightarrow> error + string) \<Rightarrow> event \<Rightarrow> state \<Rightarrow> state option" where
  "step port (Progress w p) s =
     (case workerAt s w of Some (Awaiting it) \<Rightarrow> Some (onProgress it p s) | _ \<Rightarrow> None)"
| "step port (Settle w) s =
     (case workerAt s w of Some (Awaiting it) \<Rightarrow> Some (processItem_settle w it (port (index it)) s) | _ \<Rightarrow> None)"
| "step port (Resume w) s =
     (case workerAt s w of Some AtLoopHead \<Rightarrow> Some (runWorker w s) | _ \<Rightarrow> None)"
| "step port Join s =
     (if isProcessing s \<and> list_all (\<lambda>x. x = Finished) (workers s)
      then Some (s\<lparr>isProcessing := False\<rparr>) else None)"

fun exec :: "(nat \<Rightarrow> error + string) \<Rightarrow> event list \<Rightarrow> state \<Rightarrow> state option" where
  "exec port [] s = Some s"
| "exec port (e # es) s = (case step port e s of None \<Rightarrow> None | Some s' \<Rightarrow> exec port es s')"

section \<open>Ingestion (handleCapture)\<close>

text \<open>
  A captured image is appended to the list as a pending item with progress 0 and no
  text. The identifier (random in the source) and the object URL are parameters; closing
  the camera and selecting the first image are outside the state modelled here.
\<close>

definition newImage :: "string \<Rightarrow> string \<Rightarrow> BatchImage" where
  "newImage ident url = \<lparr>imgId = ident, previewUrl = url, processedText = None, status = Pending, progress = 0\<rparr>"

definition handleCapture :: "string \<Rightarrow> string \<Rightarrow> state \<Rightarrow> state" where
  "handleCapture ident url s = s\<lparr>images := images s @ [newImage ident url]\<rparr>"

section \<open>Vocabulary of the specification\<close>

text \<open>
  The chunk an item contributes: the transcribed text of a resolved call, the placeholder
  of a rejected one.
\<close>

definition resultChunk :: "error + string \<Rightarrow> string" where
  "resultChunk r = (case r of Inr text \<Rightarrow> text | Inl err \<Rightarrow> PLACEHOLDER)"

text \<open>
  The specification's own description of the output: the non-empty chunks, in order,
  joined by exactly one separator between neighbours.
\<close>

fun joinWith :: "string \<Rightarrow> string list \<Rightarrow> string" where
  "joinWith sep [] = []"
| "joinWith sep [c] = c"
| "joinWith sep (c # d # cs) = c @ sep @ joinWith sep (d # cs)"

definition joinChunks :: "string list \<Rightarrow> string" where
  "joinChunks cs = joinWith BLANK_LINE (filter (\<lambda>c. c \<noteq> []) cs)"

text \<open>
  Events that do work (everything but progress reports), and the work a run still has
  to do: an unclaimed item needs a settlement and a resumption, a waiting worker the
  same, a worker at its loop one resumption, and the run one join.
\<close>

fun isWork :: "event \<Rightarrow> bool" where
  "isWork (Progress w p) = False"
| "isWork (Settle w) = True"
| "isWork (Resume w) = True"
| "isWork Join = True"

fun weight :: "worker \<Rightarrow> nat" where
  "weight (Awaiting it) = 2"
| "weight AtLoopHead = 1"
| "weight Finished = 0"

definition remaining :: "state \<Rightarrow> nat" where
  "remaining s =
     2 * (length (pendingItems s) - queuePointer s) + sum_list (map weight (workers s))
       + (if isProcessing s then 1 else 0)"

section \<open>Invariants of a run\<close>

text \<open>
  The original indices of the pending items; those claimed so far; those a worker is
  waiting for; and those whose call has settled.
\<close>

definition pendingIndices :: "state \<Rightarrow> nat list" where
  "pendingIndices s = map index (pendingItems s)"

definition claimed :: "state \<Rightarrow> nat set" where
  "claimed s = set (take (queuePointer s) (pendingIndices s))"

definition awaits :: "state \<Rightarrow> nat \<Rightarrow> nat \<Rightarrow> bool" where
  "awaits s w i = (\<exists>it. workerAt s w = Some (Awaiting it) \<and> index it = i)"

definition inflight :: "state \<Rightarrow> nat set" where
  "inflight s = {i. \<exists>w. awaits s w i}"

definition settled :: "state \<Rightarrow> nat set" where
  "settled s = claimed s - inflight s"

text \<open>What \<open>processItem_settle\<close> writes into the item, in one function of the outcome.\<close>

definition settleImage :: "error + string \<Rightarrow> BatchImage \<Rightarrow> BatchImage" where
  "settleImage r im =
     (case r of Inr text \<Rightarrow> im\<lparr>status := Completed, processedText := Some text\<rparr>
              | Inl err \<Rightarrow> im\<lparr>status := Error\<rparr>)"

definition settledAs :: "error + string \<Rightarrow> BatchImage \<Rightarrow> BatchImage \<Rightarrow> bool" where
  "settledAs r im0 im =
     (case r of
        Inr text \<Rightarrow> status im = Completed \<and> processedText im = Some text
      | Inl err \<Rightarrow> status im = Error \<and> processedText im = processedText im0)"

text \<open>
  The worker pool: the pending items are those of the start state \<open>s0\<close>, every index a
  worker waits for is claimed and waited for by one worker only, a worker has returned
  only when the queue is exhausted, the port was called for the claimed indices in
  order, unclaimed items are untouched, items in flight are processing, and settled
  items carry the outcome of their call.
\<close>

definition poolInv :: "(nat \<Rightarrow> error + string) \<Rightarrow> state \<Rightarrow> state \<Rightarrow> bool" where
  "poolInv port s0 s \<longleftrightarrow>
     pendingItems s = pendingItemsOf (images s0) \<and>
     pendingItems s \<noteq> [] \<and>
     length (images s) = length (images s0) \<and>
     queuePointer s \<le> length (pendingItems s) \<and>
     length (workers s) = min CONCURRENCY_LIMIT (length (pendingItems s)) \<and>
     inflight s \<subseteq> claimed s \<and>
     (\<forall>w w' i. awaits s w i \<and> awaits s w' i \<longrightarrow> w = w') \<and>
     (Finished \<in> set (workers s) \<longrightarrow> queuePointer s = length (pendingItems s)) \<and>
     map snd (portCalls s) = take (queuePointer s) (pendingIndices s) \<and>
     (isProcessing s \<or> (\<forall>x\<in>set (workers s). x = Finished)) \<and>
     (\<forall>i<length (images s0). i \<notin> claimed s \<longrightarrow> images s ! i = images s0 ! i) \<and>
     (\<forall>i\<in>inflight s. status (images s ! i) = Processing \<and>
                        processedText (images s ! i) = processedText (images s0 ! i)) \<and>
     (\<forall>i\<in>settled s. settledAs (port i) (images s0 ! i) (images s ! i))"

text \<open>
  The reassembler: the frontier is the first index from the first pending one whose
  call has not settled, the map holds the settled chunks beyond the frontier, and the
  text is the text of the start state extended by the chunks below the frontier.
\<close>

definition firstPending :: "state \<Rightarrow> nat" where
  "firstPending s = index (hd (pendingItems s))"

definition reasmInv :: "(nat \<Rightarrow> error + string) \<Rightarrow> state \<Rightarrow> state \<Rightarrow> bool" where
  "reasmInv port s0 s \<longleftrightarrow>
     firstPending s \<le> nextIndexToAppend s \<and>
     (\<forall>i. map_of (completedTexts s) i =
            (if nextIndexToAppend s \<le> i \<and> i \<in> settled s then Some (resultChunk (port i)) else None)) \<and>
     (\<forall>i. firstPending s \<le> i \<and> i < nextIndexToAppend s \<longrightarrow> i \<in> settled s) \<and>
     nextIndexToAppend s \<notin> settled s \<and>
     finalText s = foldl appendChunk (finalText s0)
                     (map (\<lambda>i. resultChunk (port i)) [firstPending s ..< nextIndexToAppend s])"

definition runInv :: "(nat \<Rightarrow> error + string) \<Rightarrow> state \<Rightarrow> state \<Rightarrow> bool" where
  "runInv port s0 s \<longleftrightarrow> poolInv port s0 s \<and> reasmInv port s0 s"

text \<open>
  The reassembler on its own. \<open>publish\<close> is what a settlement does to the map, the
  frontier and the text: \<^verbatim>\<open>completedTexts.set\<close> followed by the loop of \<^verbatim>\<open>tryAppendText\<close>.
  \<open>reasm c f t0 D\<close> describes the three after the chunks \<open>c i\<close> of the indices \<open>i\<close> in \<open>D\<close>
  have been published, starting from frontier \<open>f\<close> and text \<open>t0\<close>.
\<close>

definition publish :: "nat \<times> string \<Rightarrow> (nat \<times> string) list \<times> nat \<times> string \<Rightarrow> (nat \<times> string) list \<times> nat \<times> string" where
  "publish p st = (case st of (ct, n, t) \<Rightarrow> tryAppendLoop (AList.update (fst p) (snd p) ct) n t)"

definition reasm :: "(nat \<Rightarrow> string) \<Rightarrow> nat \<Rightarrow> string \<Rightarrow> nat set \<Rightarrow> (nat \<times> string) list \<times> nat \<times> string \<Rightarrow> bool" where
  "reasm c f t0 D st \<longleftrightarrow>
     (case st of (ct, n, t) \<Rightarrow>
        f \<le> n \<and>
        (\<forall>i. map_of ct i = (if n \<le> i \<and> i \<in> D then Some (c i) else None)) \<and>
        (\<forall>i. f \<le> i \<and> i < n \<longrightarrow> i \<in> D) \<and>
        n \<notin> D \<and>
        t = foldl appendChunk t0 (map c [f ..< n]))"

text \<open>The state of \<open>startBatchProcess\<close> just before it starts the workers.\<close>

definition initRun :: "state \<Rightarrow> state" where
  "initRun s =
     s\<lparr>isProcessing := True,
       pendingItems := pendingItemsOf (images s),
       nextIndexToAppend := index (hd (pendingItemsOf (images s))),
       completedTexts := [],
       queuePointer := 0,
       workers := replicate (min CONCURRENCY_LIMIT (length (pendingItemsOf (images s)))) AtLoopHead,
       portCalls := []\<rparr>"

text \<open>Every item that is still pending has the progress it was created with.\<close>

definition pendingAtZero :: "BatchImage list \<Rightarrow> bool" where
  "pendingAtZero imgs \<longleftrightarrow> (\<forall>im\<in>set imgs. status im = Pending \<longrightarrow> progress im = 0)"

section \<open>Example runs\<close>

text \<open>
  The application with a stored key and no images, the same after capturing images,
  four transcription ports, and schedules in which each worker resumes right after its
  call settles.
\<close>

definition appState :: "string \<Rightarrow> state" where
  "appState key = \<lparr>images = [], finalText = [], isProcessing = False, showKeyModal = False,
     apiKey = key, pendingItems = [], nextIndexToAppend = 0, completedTexts = [],
     queuePointer = 0, workers = [], portCalls = []\<rparr>"

definition pages :: "string list \<Rightarrow> state" where
  "pages ns = foldl (\<lambda>s n. handleCapture n (''blob:'' @ n) s) (appState ''key'') ns"

definition abc :: "string list" where
  "abc = [''a'', ''b'', ''c'']"

definition abcd :: "string list" where
  "abcd = [''a'', ''b'', ''c'', ''d'']"

definition portABC :: "nat \<Rightarrow> error + string" where
  "portABC i = (if i = 0 then Inr ''A'' else if i = 1 then Inr ''B'' else Inr ''C'')"

definition portA_C :: "nat \<Rightarrow> error + string" where
  "portA_C i = (if i = 0 then Inr ''A'' else if i = 1 then Inr [] else Inr ''C'')"

definition portFails :: "nat \<Rightarrow> error + string" where
  "portFails i = Inl ExtractFailed"

definition portOnlyB :: "nat \<Rightarrow> error + string" where
  "portOnlyB i = (if i = 1 then Inr ''B'' else Inl ExtractFailed)"

definition threeOutOfOrder :: "event list" where
  "threeOutOfOrder = [Settle 1, Resume 1, Settle 0, Resume 0, Settle 2, Resume 2, Join]"

definition oneInOrder :: "event list" where
  "oneInOrder = [Progress 0 (2 / 10), Settle 0, Resume 0, Join]"

definition oneItem :: "event list" where
  "oneItem = [Settle 0, Resume 0, Join]"

definition twoItems :: "event list" where
  "twoItems = [Settle 1, Resume 1, Settle 0, Resume 0, Join]"

text \<open>The state a schedule leads to from the start of a run.\<close>

definition runTo :: "(nat \<Rightarrow> error + string) \<Rightarrow> event list \<Rightarrow> state \<Rightarrow> state" where
  "runTo port evs s = (case exec port evs (startBatchProcess s) of Some s' \<Rightarrow> s' | None \<Rightarrow> s)"

text \<open>
  \<open>failedOnce\<close>: one page whose call reported progress 0.2 and was rejected.
  \<open>partlyFailed\<close>: three pages of which the first and the last were rejected.
  \<open>secondBatch\<close>: one transcribed page, and a second page captured after that run.
\<close>

definition failedOnce :: state where
  "failedOnce = runTo portFails oneInOrder (pages [''a''])"

definition partlyFailed :: state where
  "partlyFailed = runTo portOnlyB threeOutOfOrder (pages abc)"

definition secondBatch :: state where
  "secondBatch = handleCapture ''b'' ''blob:b'' (runTo portABC oneItem (pages [''a'']))"

section \<open>Lists, maps and the loop of tryAppendText\<close>

declare tryAppendLoop.simps [simp del]

lemma length_mapAt [simp]: "length (mapAt idx f imgs) = length imgs"
  by (simp add: mapAt_def)

lemma nth_mapAt:
  "j < length imgs \<Longrightarrow> mapAt idx f imgs ! j = (if j = idx then f (imgs ! j) else imgs ! j)"
  by (simp add: mapAt_def nth_enumerate_eq)

lemma index_pending_gen:
  "map index (filter (\<lambda>it. status (img it) \<noteq> Completed)
       (map (\<lambda>(i, im). \<lparr>img = im, index = i\<rparr>) (enumerate n imgs)))
   = filter (\<lambda>i. status (imgs ! (i - n)) \<noteq> Completed) [n ..< n + length imgs]"
proof (induction imgs arbitrary: n)
  case Nil
  then show ?case by simp
next
  case (Cons a imgs)
  have split: "[n ..< n + length (a # imgs)] = n # [Suc n ..< Suc n + length imgs]"
    by (subst upt_rec) simp
  have "filter (\<lambda>i. status ((a # imgs) ! (i - n)) \<noteq> Completed) [Suc n ..< Suc n + length imgs]
      = filter (\<lambda>i. status (imgs ! (i - Suc n)) \<noteq> Completed) [Suc n ..< Suc n + length imgs]"
    by (rule filter_cong) (auto simp: nth_Cons')
  with Cons.IH [of "Suc n"] show ?case
    unfolding split by simp
qed

lemma index_pendingItemsOf:
  "map index (pendingItemsOf imgs) = filter (\<lambda>i. status (imgs ! i) \<noteq> Completed) [0 ..< length imgs]"
  using index_pending_gen [of 0 imgs] by (simp add: pendingItemsOf_def)

lemma pendingItemsOf_Nil_iff:
  "pendingItemsOf imgs = [] \<longleftrightarrow> (\<forall>im\<in>set imgs. status im = Completed)"
proof -
  have "pendingItemsOf imgs = [] \<longleftrightarrow> map index (pendingItemsOf imgs) = []" by simp
  also have "\<dots> \<longleftrightarrow> (\<forall>i<length imgs. status (imgs ! i) = Completed)"
    unfolding index_pendingItemsOf by (auto simp: filter_empty_conv)
  also have "\<dots> \<longleftrightarrow> (\<forall>im\<in>set imgs. status im = Completed)"
    by (simp add: all_set_conv_all_nth)
  finally show ?thesis .
qed

lemma nth_notin_take: "distinct xs \<Longrightarrow> q < length xs \<Longrightarrow> xs ! q \<notin> set (take q xs)"
  by (auto simp: in_set_conv_nth nth_eq_iff_index_eq)

lemma hd_sorted_le: "sorted_wrt (<) xs \<Longrightarrow> x \<in> set xs \<Longrightarrow> hd xs \<le> (x::nat)"
  by (cases xs) auto

text \<open>
  The loop flushes exactly the maximal run of keys from the frontier on, in order, and
  leaves the rest of the map as it was.
\<close>

lemma tryAppendLoop_spec:
  "tryAppendLoop ct n t = (ct', n', t') \<Longrightarrow>
     n \<le> n' \<and> (\<forall>i. n \<le> i \<and> i < n' \<longrightarrow> map_of ct i \<noteq> None) \<and> map_of ct n' = None \<and>
     (\<forall>i. map_of ct' i = (if n \<le> i \<and> i < n' then None else map_of ct i)) \<and>
     t' = foldl appendChunk t (map (\<lambda>i. the (map_of ct i)) [n ..< n'])"
proof (induction ct n t rule: tryAppendLoop.induct)
  case (1 ct n t)
  show ?case
  proof (cases "map_of ct n")
    case None
    with "1.prems" show ?thesis
      by (auto simp: tryAppendLoop.simps)
  next
    case (Some c)
    with "1.prems" have rec: "tryAppendLoop (AList.delete n ct) (Suc n) (appendChunk t c) = (ct', n', t')"
      by (simp add: tryAppendLoop.simps)
    note ih = "1.IH" [OF Some rec]
    from ih have le: "Suc n \<le> n'" by simp
    have eq: "map_of (AList.delete n ct) i = map_of ct i" if "i \<noteq> n" for i
      using that by (simp add: delete_conv)
    have a: "\<forall>i. n \<le> i \<and> i < n' \<longrightarrow> map_of ct i \<noteq> None"
    proof (intro allI impI)
      fix i assume "n \<le> i \<and> i < n'"
      then consider "i = n" | "Suc n \<le> i" "i < n'" by linarith
      then show "map_of ct i \<noteq> None"
      proof cases
        case 1 then show ?thesis using Some by simp
      next
        case 2 then show ?thesis using ih eq [of i] by auto
      qed
    qed
    have b: "map_of ct n' = None" using ih le eq [of n'] by auto
    have c: "\<forall>i. map_of ct' i = (if n \<le> i \<and> i < n' then None else map_of ct i)"
    proof
      fix i
      show "map_of ct' i = (if n \<le> i \<and> i < n' then None else map_of ct i)"
      proof (cases "i = n")
        case True
        then show ?thesis using ih le by (auto simp: delete_conv)
      next
        case False
        then show ?thesis using ih eq [of i] by auto
      qed
    qed
    have mapeq: "map (\<lambda>i. the (map_of (AList.delete n ct) i)) [Suc n ..< n'] = map (\<lambda>i. the (map_of ct i)) [Suc n ..< n']"
      by (rule map_cong) (auto simp: eq)
    have upt: "[n ..< n'] = n # [Suc n ..< n']"
      using le by (subst upt_rec) simp
    from ih have "t' = foldl appendChunk (appendChunk t c) (map (\<lambda>i. the (map_of (AList.delete n ct) i)) [Suc n ..< n'])"
      by simp
    then have d: "t' = foldl appendChunk t (map (\<lambda>i. the (map_of ct i)) [n ..< n'])"
      unfolding mapeq upt using Some by simp
    from le a b c d show ?thesis by simp
  qed
qed

text \<open>The loop's way of appending is the specification's way of joining.\<close>

lemma joinWith_snoc:
  "joinWith sep (cs @ [c]) = (if cs = [] then c else joinWith sep cs @ sep @ c)"
  by (induction sep cs rule: joinWith.induct) auto

lemma joinWith_empty_iff:
  "\<forall>c\<in>set cs. c \<noteq> [] \<Longrightarrow> joinWith sep cs = [] \<longleftrightarrow> cs = []"
  by (induction sep cs rule: joinWith.induct) auto

lemma joinChunks_snoc: "joinChunks (cs @ [c]) = appendChunk (joinChunks cs) c"
proof -
  have "joinWith BLANK_LINE (filter (\<lambda>c. c \<noteq> []) cs) = [] \<longleftrightarrow> filter (\<lambda>c. c \<noteq> []) cs = []"
    by (rule joinWith_empty_iff) simp
  then show ?thesis
    by (simp add: joinChunks_def appendChunk_def joinWith_snoc)
qed

lemma foldl_appendChunk: "foldl appendChunk (joinChunks pre) cs = joinChunks (pre @ cs)"
proof (induction cs arbitrary: pre)
  case Nil
  then show ?case by simp
next
  case (Cons c cs)
  from Cons.IH [of "pre @ [c]"] show ?case by (simp add: joinChunks_snoc)
qed

lemma assemble_joinChunks: "foldl appendChunk t cs = joinChunks (t # cs)"
proof -
  have "joinChunks [t] = t" by (simp add: joinChunks_def)
  with foldl_appendChunk [of "[t]" cs] show ?thesis by simp
qed

section \<open>Frames\<close>

lemma tryAppendText_frame [simp]:
  "images (tryAppendText s) = images s"
  "workers (tryAppendText s) = workers s"
  "queuePointer (tryAppendText s) = queuePointer s"
  "pendingItems (tryAppendText s) = pendingItems s"
  "portCalls (tryAppendText s) = portCalls s"
  "isProcessing (tryAppendText s) = isProcessing s"
  "showKeyModal (tryAppendText s) = showKeyModal s"
  "apiKey (tryAppendText s) = apiKey s"
  by (simp_all add: tryAppendText_def split: prod.splits)

lemma runWorker_frame:
  "pendingItems (runWorker w s) = pendingItems s"
  "nextIndexToAppend (runWorker w s) = nextIndexToAppend s"
  "completedTexts (runWorker w s) = completedTexts s"
  "finalText (runWorker w s) = finalText s"
  "isProcessing (runWorker w s) = isProcessing s"
  "showKeyModal (runWorker w s) = showKeyModal s"
  "apiKey (runWorker w s) = apiKey s"
  "length (workers (runWorker w s)) = length (workers s)"
  "length (images (runWorker w s)) = length (images s)"
  by (simp_all add: runWorker_def processItem_begin_def)

lemma runWorker_other:
  "w' \<noteq> w \<Longrightarrow> workerAt (runWorker w s) w' = workerAt s w'"
  by (simp add: runWorker_def processItem_begin_def workerAt_def)

lemma processItem_settle_eq:
  "processItem_settle w it r s =
     tryAppendText
       (s\<lparr>images := mapAt (index it) (settleImage r) (images s),
          completedTexts := AList.update (index it) (resultChunk r) (completedTexts s),
          workers := (workers s)[w := AtLoopHead]\<rparr>)"
proof (cases r)
  case (Inl e)
  have "settleImage (Inl e) = (\<lambda>im. im\<lparr>status := Error\<rparr>)"
    by (simp add: settleImage_def fun_eq_iff)
  with Inl show ?thesis by (simp add: processItem_settle_def resultChunk_def)
next
  case (Inr t)
  have "settleImage (Inr t) = (\<lambda>im. im\<lparr>status := Completed, processedText := Some t\<rparr>)"
    by (simp add: settleImage_def fun_eq_iff)
  with Inr show ?thesis by (simp add: processItem_settle_def resultChunk_def)
qed

lemma workerAt_length: "workerAt s w = Some x \<Longrightarrow> w < length (workers s) \<and> workers s ! w = x"
  by (simp add: workerAt_def split: if_splits)

lemma exec_frame:
  "exec port evs s = Some s' \<Longrightarrow> apiKey s' = apiKey s \<and> showKeyModal s' = showKeyModal s"
proof (induction evs arbitrary: s)
  case Nil
  then show ?case by simp
next
  case (Cons e evs)
  from Cons.prems obtain s1 where s1: "step port e s = Some s1" "exec port evs s1 = Some s'"
    by (auto split: option.splits)
  have "apiKey s1 = apiKey s \<and> showKeyModal s1 = showKeyModal s"
    using s1(1)
    by (cases e) (auto simp: onProgress_def processItem_settle_eq runWorker_frame
        split: option.splits worker.splits if_splits)
  with Cons.IH [OF s1(2)] show ?case by simp
qed

lemma foldl_runWorker_apiKey:
  "apiKey (foldl (\<lambda>t w. runWorker w t) s ws) = apiKey s"
  by (induction ws arbitrary: s) (simp_all add: runWorker_frame)

lemma startBatchProcess_apiKey:
  "apiKey (startBatchProcess s) = apiKey s"
  by (simp add: startBatchProcess_def foldl_runWorker_apiKey split: list.splits)

lemma startBatchProcess_run:
  assumes "\<not> isProcessing s" "apiKey s \<noteq> []" "pendingItemsOf (images s) \<noteq> []"
  shows "startBatchProcess s =
           foldl (\<lambda>t w. runWorker w t) (initRun s)
             [0 ..< min CONCURRENCY_LIMIT (length (pendingItemsOf (images s)))]"
  using assms by (cases "pendingItemsOf (images s)") (simp_all add: startBatchProcess_def initRun_def)

section \<open>The worker pool invariant\<close>

lemma poolInvD:
  assumes "poolInv port s0 s"
  shows "pendingItems s = pendingItemsOf (images s0)"
    and "pendingItems s \<noteq> []"
    and "length (images s) = length (images s0)"
    and "queuePointer s \<le> length (pendingItems s)"
    and "length (workers s) = min CONCURRENCY_LIMIT (length (pendingItems s))"
    and "inflight s \<subseteq> claimed s"
    and "\<And>w w' i. awaits s w i \<Longrightarrow> awaits s w' i \<Longrightarrow> w = w'"
    and "Finished \<in> set (workers s) \<Longrightarrow> queuePointer s = length (pendingItems s)"
    and "map snd (portCalls s) = take (queuePointer s) (pendingIndices s)"
    and "isProcessing s \<or> (\<forall>x\<in>set (workers s). x = Finished)"
    and "\<And>i. i < length (images s0) \<Longrightarrow> i \<notin> claimed s \<Longrightarrow> images s ! i = images s0 ! i"
    and "\<And>i. i \<in> inflight s \<Longrightarrow> status (images s ! i) = Processing \<and>
                        processedText (images s ! i) = processedText (images s0 ! i)"
    and "\<And>i. i \<in> settled s \<Longrightarrow> settledAs (port i) (images s0 ! i) (images s ! i)"
  using assms unfolding poolInv_def by auto

lemma poolInvI:
  assumes "pendingItems s = pendingItemsOf (images s0)"
    and "pendingItems s \<noteq> []"
    and "length (images s) = length (images s0)"
    and "queuePointer s \<le> length (pendingItems s)"
    and "length (workers s) = min CONCURRENCY_LIMIT (length (pendingItems s))"
    and "inflight s \<subseteq> claimed s"
    and "\<And>w w' i. awaits s w i \<Longrightarrow> awaits s w' i \<Longrightarrow> w = w'"
    and "Finished \<in> set (workers s) \<Longrightarrow> queuePointer s = length (pendingItems s)"
    and "map snd (portCalls s) = take (queuePointer s) (pendingIndices s)"
    and "isProcessing s \<or> (\<forall>x\<in>set (workers s). x = Finished)"
    and "\<And>i. i < length (images s0) \<Longrightarrow> i \<notin> claimed s \<Longrightarrow> images s ! i = images s0 ! i"
    and "\<And>i. i \<in> inflight s \<Longrightarrow> status (images s ! i) = Processing \<and>
                        processedText (images s ! i) = processedText (images s0 ! i)"
    and "\<And>i. i \<in> settled s \<Longrightarrow> settledAs (port i) (images s0 ! i) (images s ! i)"
  shows "poolInv port s0 s"
  unfolding poolInv_def using assms by auto

lemma pendingIndices_eq:
  "pendingItems s = pendingItemsOf (images s0) \<Longrightarrow>
   pendingIndices s = filter (\<lambda>i. status (images s0 ! i) \<noteq> Completed) [0 ..< length (images s0)]"
  by (simp only: pendingIndices_def index_pendingItemsOf)

lemma pendingIndices_start:
  assumes "pendingItems s = pendingItemsOf (images s0)"
  shows "distinct (pendingIndices s)" and "sorted_wrt (<) (pendingIndices s)"
    and "\<And>i. i \<in> set (pendingIndices s) \<longleftrightarrow> i < length (images s0) \<and> status (images s0 ! i) \<noteq> Completed"
proof -
  note eq = pendingIndices_eq [OF assms]
  show "distinct (pendingIndices s)" unfolding eq by simp
  show "sorted_wrt (<) (pendingIndices s)" unfolding eq by (rule sorted_wrt_filter) simp
  show "\<And>i. i \<in> set (pendingIndices s) \<longleftrightarrow> i < length (images s0) \<and> status (images s0 ! i) \<noteq> Completed"
    unfolding eq by auto
qed

lemma awaits_update:
  assumes "workers s' = (workers s)[w := x]" "w < length (workers s)"
  shows "awaits s' w' i = (if w' = w then (\<exists>it. x = Awaiting it \<and> index it = i) else awaits s w' i)"
  using assms by (auto simp: awaits_def workerAt_def)

lemma awaits_same: "workers s' = workers s \<Longrightarrow> awaits s' = awaits s"
  by (auto simp: awaits_def workerAt_def fun_eq_iff)

lemma inflight_same: "workers s' = workers s \<Longrightarrow> inflight s' = inflight s"
  using awaits_same [of s' s] by (simp add: inflight_def)

lemma claimed_same:
  "queuePointer s' = queuePointer s \<Longrightarrow> pendingItems s' = pendingItems s \<Longrightarrow> claimed s' = claimed s"
  by (simp add: claimed_def pendingIndices_def)

lemma claimed_lt:
  assumes "poolInv port s0 s" "i \<in> claimed s"
  shows "i < length (images s0)" and "i \<in> set (pendingIndices s)"
proof -
  show p: "i \<in> set (pendingIndices s)"
    using assms(2) by (auto simp: claimed_def dest: in_set_takeD)
  then show "i < length (images s0)"
    using pendingIndices_start(3) [OF poolInvD(1) [OF assms(1)]] by simp
qed

text \<open>What a claim and a settlement do to the sets of claimed, waiting and settled indices.\<close>

lemma claim_effect:
  assumes inv: "poolInv port s0 s" and w: "workerAt s w = Some AtLoopHead"
    and q: "queuePointer s < length (pendingItems s)"
  defines "c \<equiv> pendingIndices s ! queuePointer s"
  defines "s' \<equiv> runWorker w s"
  shows "claimed s' = insert c (claimed s)" and "inflight s' = insert c (inflight s)"
    and "settled s' = settled s" and "c \<notin> claimed s"
    and "\<And>w' i. awaits s' w' i = (if w' = w then i = c else awaits s w' i)"
    and "images s' = mapAt c (\<lambda>im. im\<lparr>status := Processing\<rparr>) (images s)"
    and "c < length (images s0)"
proof -
  have wl: "w < length (workers s)" using w by (simp add: workerAt_def split: if_splits)
  have nw: "\<not> awaits s w i" for i using w by (simp add: awaits_def)
  have ws: "workers s' = (workers s)[w := Awaiting (pendingItems s ! queuePointer s)]"
    using q by (simp add: s'_def runWorker_def processItem_begin_def)
  have ic: "index (pendingItems s ! queuePointer s) = c"
    using q by (simp add: c_def pendingIndices_def)
  show aw: "\<And>w' i. awaits s' w' i = (if w' = w then i = c else awaits s w' i)"
    using awaits_update [OF ws wl] ic by auto
  have "pendingItems s' = pendingItems s" "queuePointer s' = Suc (queuePointer s)"
    using q by (simp_all add: s'_def runWorker_def processItem_begin_def)
  then show cl: "claimed s' = insert c (claimed s)"
    using q by (simp add: claimed_def pendingIndices_def c_def take_Suc_conv_app_nth)
  show inf: "inflight s' = insert c (inflight s)"
  proof -
    have "(\<exists>w'. awaits s' w' i) \<longleftrightarrow> i = c \<or> (\<exists>w'. awaits s w' i)" for i
    proof
      assume "\<exists>w'. awaits s' w' i"
      then obtain w' where "awaits s' w' i" ..
      then show "i = c \<or> (\<exists>w'. awaits s w' i)"
        by (cases "w' = w") (auto simp: aw)
    next
      assume "i = c \<or> (\<exists>w'. awaits s w' i)"
      then show "\<exists>w'. awaits s' w' i"
      proof
        assume "i = c"
        then have "awaits s' w i" by (simp add: aw)
        then show ?thesis ..
      next
        assume "\<exists>w'. awaits s w' i"
        then obtain w' where a: "awaits s w' i" ..
        with nw have "w' \<noteq> w" by auto
        with a have "awaits s' w' i" by (simp add: aw)
        then show ?thesis ..
      qed
    qed
    then show ?thesis by (auto simp: inflight_def)
  qed
  have d: "distinct (pendingIndices s)"
    using poolInvD(1) [OF inv] by (rule pendingIndices_start(1))
  show nc: "c \<notin> claimed s"
    unfolding claimed_def c_def using d q by (intro nth_notin_take) (simp_all add: pendingIndices_def)
  have "inflight s \<subseteq> claimed s" using inv by (rule poolInvD)
  then show "settled s' = settled s"
    using nc by (auto simp: settled_def cl inf)
  show "images s' = mapAt c (\<lambda>im. im\<lparr>status := Processing\<rparr>) (images s)"
    using q ic by (simp add: s'_def runWorker_def processItem_begin_def)
  have "c \<in> set (pendingIndices s)" using q by (simp add: c_def pendingIndices_def)
  then show "c < length (images s0)"
    using pendingIndices_start(3) [OF poolInvD(1) [OF inv]] by simp
qed

lemma settle_effect:
  assumes inv: "poolInv port s0 s" and w: "workerAt s w = Some (Awaiting it)"
    and c_def: "c = index it" and s'_def: "s' = processItem_settle w it r s"
  shows "claimed s' = claimed s" and "inflight s' = inflight s - {c}"
    and "settled s' = insert c (settled s)" and "c \<in> inflight s"
    and "\<And>w' i. awaits s' w' i = (w' \<noteq> w \<and> awaits s w' i)"
    and "images s' = mapAt c (settleImage r) (images s)"
    and "c < length (images s0)"
proof -
  note D = poolInvD [OF inv]
  have wl: "w < length (workers s)" using w by (simp add: workerAt_length)
  have awc: "awaits s w c" using w by (simp add: awaits_def c_def)
  have only: "awaits s w i \<longleftrightarrow> i = c" for i using w by (auto simp: awaits_def c_def)
  have ws: "workers s' = (workers s)[w := AtLoopHead]"
    by (simp add: s'_def processItem_settle_eq)
  show aw: "\<And>w' i. awaits s' w' i = (w' \<noteq> w \<and> awaits s w' i)"
    using awaits_update [OF ws wl] by auto
  show ci: "c \<in> inflight s" using awc by (auto simp: inflight_def)
  show cl: "claimed s' = claimed s"
    by (rule claimed_same) (simp_all add: s'_def processItem_settle_eq)
  show inf: "inflight s' = inflight s - {c}"
  proof (intro set_eqI iffI)
    fix i assume "i \<in> inflight s'"
    then obtain w' where a: "w' \<noteq> w" "awaits s w' i" by (auto simp: inflight_def aw)
    have "i \<noteq> c" using D(7) [OF a(2), of w] a(1) awc by auto
    with a show "i \<in> inflight s - {c}" by (auto simp: inflight_def)
  next
    fix i assume "i \<in> inflight s - {c}"
    then obtain w' where a: "awaits s w' i" "i \<noteq> c" by (auto simp: inflight_def)
    with only have "w' \<noteq> w" by auto
    with a show "i \<in> inflight s'" by (auto simp: inflight_def aw)
  qed
  show "settled s' = insert c (settled s)"
    using ci D(6) by (auto simp: settled_def cl inf)
  show "images s' = mapAt c (settleImage r) (images s)"
    by (simp add: s'_def processItem_settle_eq c_def)
  from ci D(6) have "c \<in> claimed s" by auto
  then show "c < length (images s0)" by (rule claimed_lt [OF inv])
qed

lemma settled_runWorker:
  assumes "poolInv port s0 s" "workerAt s w = Some AtLoopHead"
  shows "settled (runWorker w s) = settled s"
proof (cases "queuePointer s < length (pendingItems s)")
  case True
  then show ?thesis using claim_effect(3) [OF assms] by simp
next
  case False
  have nw: "\<not> awaits s w i" for i using assms(2) by (simp add: awaits_def)
  have wl: "w < length (workers s)" using assms(2) by (simp add: workerAt_length)
  have s'_eq: "runWorker w s = s\<lparr>workers := (workers s)[w := Finished]\<rparr>"
    using False by (simp add: runWorker_def)
  have "awaits (runWorker w s) w' i = awaits s w' i" for w' i
    using awaits_update [of "runWorker w s" s w Finished w' i] wl nw by (simp add: s'_eq)
  then show ?thesis
    by (simp add: settled_def inflight_def claimed_def) (simp add: s'_eq pendingIndices_def)
qed

lemma poolInv_runWorker:
  assumes inv: "poolInv port s0 s" and w: "workerAt s w = Some AtLoopHead"
  shows "poolInv port s0 (runWorker w s)"
proof (cases "queuePointer s < length (pendingItems s)")
  case True
  define c where "c = pendingIndices s ! queuePointer s"
  define s' where "s' = runWorker w s"
  note eff = claim_effect [OF inv w True, folded c_def s'_def]
  note D = poolInvD [OF inv]
  from w have wl: "w < length (workers s)" and ww: "workers s ! w = AtLoopHead"
    by (simp_all add: workerAt_length)
  have fr: "pendingItems s' = pendingItems s" "queuePointer s' = Suc (queuePointer s)"
    "isProcessing s' = isProcessing s"
    "workers s' = (workers s)[w := Awaiting (pendingItems s ! queuePointer s)]"
    "portCalls s' = portCalls s @ [(w, c)]"
    using True by (simp_all add: s'_def runWorker_def processItem_begin_def c_def pendingIndices_def)
  have same: "images s' ! i = images s ! i" if "i \<noteq> c" "i < length (images s0)" for i
    using that D(3) by (simp add: eff(6) nth_mapAt)
  have atc: "images s' ! c = (images s0 ! c)\<lparr>status := Processing\<rparr>"
    using eff(7) eff(4) D(3) D(11) [of c] by (simp add: eff(6) nth_mapAt)
  have "poolInv port s0 s'"
  proof (rule poolInvI)
    show "pendingItems s' = pendingItemsOf (images s0)" using D(1) fr by simp
    show "pendingItems s' \<noteq> []" using D(2) fr by simp
    show "length (images s') = length (images s0)" using D(3) by (simp add: eff(6))
    show "queuePointer s' \<le> length (pendingItems s')" using True fr by simp
    show "length (workers s') = min CONCURRENCY_LIMIT (length (pendingItems s'))"
      using D(5) fr by simp
    show "inflight s' \<subseteq> claimed s'" using D(6) eff(1,2) by auto
    show "w1 = w2" if "awaits s' w1 i" "awaits s' w2 i" for w1 w2 i
    proof -
      have nc: "\<not> awaits s v c" for v
        using D(6) eff(4) by (auto simp: inflight_def)
      from that show ?thesis
        using D(7) [of w1 i w2] nc by (auto simp: eff(5) split: if_splits)
    qed
    show "queuePointer s' = length (pendingItems s')" if "Finished \<in> set (workers s')"
    proof -
      from that have "Finished \<in> set (workers s)"
        unfolding fr(4) using set_update_subset_insert [of "workers s" w] by auto
      with D(8) True show ?thesis by simp
    qed
    show "map snd (portCalls s') = take (queuePointer s') (pendingIndices s')"
      using D(9) True fr by (simp add: pendingIndices_def take_Suc_conv_app_nth c_def)
    show "isProcessing s' \<or> (\<forall>x\<in>set (workers s'). x = Finished)"
    proof -
      have "AtLoopHead \<in> set (workers s)" using wl ww by (metis nth_mem)
      with D(10) have "isProcessing s" by auto
      then show ?thesis by (simp add: fr)
    qed
    show "images s' ! i = images s0 ! i" if "i < length (images s0)" "i \<notin> claimed s'" for i
      using that D(11) [of i] same [of i] by (simp add: eff(1))
    show "status (images s' ! i) = Processing \<and>
          processedText (images s' ! i) = processedText (images s0 ! i)" if "i \<in> inflight s'" for i
    proof (cases "i = c")
      case True
      then show ?thesis by (simp add: atc)
    next
      case False
      with that have i: "i \<in> inflight s" by (simp add: eff(2))
      with D(6) have "i \<in> claimed s" by auto
      then have "i < length (images s0)" by (rule claimed_lt [OF inv])
      with False D(12) [OF i] same [of i] show ?thesis by simp
    qed
    show "settledAs (port i) (images s0 ! i) (images s' ! i)" if "i \<in> settled s'" for i
    proof -
      from that have i: "i \<in> settled s" by (simp add: eff(3))
      then have "i \<in> claimed s" by (simp add: settled_def)
      then have "i < length (images s0)" "i \<noteq> c" using claimed_lt [OF inv] eff(4) by auto
      with D(13) [OF i] same [of i] show ?thesis by simp
    qed
  qed
  then show ?thesis by (simp add: s'_def)
next
  case False
  define s' where "s' = runWorker w s"
  note D = poolInvD [OF inv]
  from w have wl: "w < length (workers s)" and ww: "workers s ! w = AtLoopHead"
    by (simp_all add: workerAt_length)
  have s'_eq: "s' = s\<lparr>workers := (workers s)[w := Finished]\<rparr>"
    using False by (simp add: s'_def runWorker_def)
  have q: "queuePointer s = length (pendingItems s)" using False D(4) by simp
  have nw: "\<not> awaits s w i" for i using w by (simp add: awaits_def)
  have aw: "awaits s' = awaits s"
  proof (intro ext)
    fix w' i
    show "awaits s' w' i = awaits s w' i"
      using awaits_update [of s' s w Finished w' i] wl nw by (simp add: s'_eq)
  qed
  have sets: "inflight s' = inflight s" "claimed s' = claimed s" "settled s' = settled s"
    by (simp_all add: inflight_def claimed_def settled_def aw) (simp_all add: s'_eq pendingIndices_def)
  have "poolInv port s0 s'"
  proof (rule poolInvI)
    show "isProcessing s' \<or> (\<forall>x\<in>set (workers s'). x = Finished)"
    proof -
      have "AtLoopHead \<in> set (workers s)" using wl ww by (metis nth_mem)
      with D(10) have "isProcessing s" by auto
      then show ?thesis by (simp add: s'_eq)
    qed
    show "w1 = w2" if "awaits s' w1 i" "awaits s' w2 i" for w1 w2 i
      using that D(7) by (simp add: aw)
  qed (use D q in \<open>simp_all add: sets\<close>, simp_all add: s'_eq pendingIndices_def)
  then show ?thesis by (simp add: s'_def)
qed

lemma poolInv_settle:
  assumes inv: "poolInv port s0 s" and w: "workerAt s w = Some (Awaiting it)"
  shows "poolInv port s0 (processItem_settle w it (port (index it)) s)"
proof -
  define c where "c = index it"
  define s' where "s' = processItem_settle w it (port c) s"
  note eff = settle_effect [OF inv w c_def s'_def]
  note D = poolInvD [OF inv]
  from w have wl: "w < length (workers s)" and ww: "workers s ! w = Awaiting it"
    by (simp_all add: workerAt_length)
  have fr: "pendingItems s' = pendingItems s" "queuePointer s' = queuePointer s"
    "isProcessing s' = isProcessing s" "workers s' = (workers s)[w := AtLoopHead]"
    "portCalls s' = portCalls s"
    by (simp_all add: s'_def processItem_settle_eq)
  have same: "images s' ! i = images s ! i" if "i \<noteq> c" "i < length (images s0)" for i
    using that D(3) by (simp add: eff(6) nth_mapAt)
  have atc: "images s' ! c = settleImage (port c) (images s ! c)"
    using eff(7) D(3) by (simp add: eff(6) nth_mapAt)
  have "poolInv port s0 s'"
  proof (rule poolInvI)
    show "inflight s' \<subseteq> claimed s'" using D(6) by (auto simp: eff(1,2))
    show "w1 = w2" if "awaits s' w1 i" "awaits s' w2 i" for w1 w2 i
      using that D(7) [of w1 i w2] by (simp add: eff(5))
    show "queuePointer s' = length (pendingItems s')" if "Finished \<in> set (workers s')"
    proof -
      from that have "Finished \<in> set (workers s)"
        unfolding fr(4) using set_update_subset_insert [of "workers s" w] by auto
      with D(8) show ?thesis by (simp add: fr)
    qed
    show "isProcessing s' \<or> (\<forall>x\<in>set (workers s'). x = Finished)"
    proof -
      have "Awaiting it \<in> set (workers s)" using wl ww by (metis nth_mem)
      with D(10) have "isProcessing s" by auto
      then show ?thesis by (simp add: fr)
    qed
    show "images s' ! i = images s0 ! i" if "i < length (images s0)" "i \<notin> claimed s'" for i
    proof -
      from that eff(4) D(6) have "i \<noteq> c" by (auto simp: eff(1))
      with that D(11) [of i] same [of i] show ?thesis by (simp add: eff(1))
    qed
    show "status (images s' ! i) = Processing \<and>
          processedText (images s' ! i) = processedText (images s0 ! i)" if "i \<in> inflight s'" for i
    proof -
      from that have i: "i \<in> inflight s" "i \<noteq> c" by (simp_all add: eff(2))
      with D(6) have "i \<in> claimed s" by auto
      then have "i < length (images s0)" by (rule claimed_lt [OF inv])
      with i D(12) [OF i(1)] same [of i] show ?thesis by simp
    qed
    show "settledAs (port i) (images s0 ! i) (images s' ! i)" if "i \<in> settled s'" for i
    proof (cases "i = c")
      case True
      from D(12) [OF eff(4)] show ?thesis
        unfolding True atc by (cases "port c") (simp_all add: settledAs_def settleImage_def)
    next
      case False
      with that have i: "i \<in> settled s" by (simp add: eff(3))
      then have "i \<in> claimed s" by (simp add: settled_def)
      then have "i < length (images s0)" by (rule claimed_lt [OF inv])
      with False D(13) [OF i] same [of i] show ?thesis by simp
    qed
  qed (use D in \<open>simp_all add: fr eff(6) pendingIndices_def\<close>)
  then show ?thesis by (simp add: s'_def c_def)
qed

lemma poolInv_onProgress:
  assumes inv: "poolInv port s0 s" and w: "workerAt s w = Some (Awaiting it)"
  shows "poolInv port s0 (onProgress it p s)"
proof -
  define c where "c = index it"
  define s' where "s' = onProgress it p s"
  note D = poolInvD [OF inv]
  have s'_eq: "s' = s\<lparr>images := mapAt c (\<lambda>im. im\<lparr>progress := p\<rparr>) (images s)\<rparr>"
    by (simp add: s'_def onProgress_def c_def)
  have aw: "awaits s' = awaits s" by (rule awaits_same) (simp add: s'_eq)
  have sets: "inflight s' = inflight s" "claimed s' = claimed s" "settled s' = settled s"
    by (simp_all add: inflight_def claimed_def settled_def aw) (simp_all add: s'_eq pendingIndices_def)
  have ci: "c \<in> inflight s" using w by (auto simp: inflight_def awaits_def c_def)
  with D(6) have cc: "c \<in> claimed s" by auto
  have nth: "images s' ! i = (if i = c then (images s ! i)\<lparr>progress := p\<rparr> else images s ! i)"
    if "i < length (images s0)" for i
    using that D(3) by (simp add: s'_eq nth_mapAt)
  have "poolInv port s0 s'"
  proof (rule poolInvI)
    show "w1 = w2" if "awaits s' w1 i" "awaits s' w2 i" for w1 w2 i
      using that D(7) by (simp add: aw)
    show "images s' ! i = images s0 ! i" if "i < length (images s0)" "i \<notin> claimed s'" for i
      using that cc D(11) [of i] nth [of i] by (auto simp: sets)
    show "status (images s' ! i) = Processing \<and>
          processedText (images s' ! i) = processedText (images s0 ! i)" if "i \<in> inflight s'" for i
    proof -
      from that have i: "i \<in> inflight s" by (simp add: sets)
      with D(6) have "i \<in> claimed s" by auto
      then have "i < length (images s0)" by (rule claimed_lt [OF inv])
      with D(12) [OF i] nth [of i] show ?thesis by auto
    qed
    show "settledAs (port i) (images s0 ! i) (images s' ! i)" if "i \<in> settled s'" for i
    proof -
      from that have i: "i \<in> settled s" by (simp add: sets)
      then have "i \<in> claimed s" by (simp add: settled_def)
      then have "i < length (images s0)" by (rule claimed_lt [OF inv])
      with D(13) [OF i] nth [of i] show ?thesis by (auto simp: settledAs_def split: sum.splits)
    qed
  qed (use D in \<open>simp_all add: sets\<close>, simp_all add: s'_eq pendingIndices_def)
  then show ?thesis by (simp add: s'_def)
qed

lemma poolInv_join:
  assumes inv: "poolInv port s0 s" and fin: "list_all (\<lambda>x. x = Finished) (workers s)"
  shows "poolInv port s0 (s\<lparr>isProcessing := False\<rparr>)"
proof -
  define s' where "s' = s\<lparr>isProcessing := False\<rparr>"
  note D = poolInvD [OF inv]
  have aw: "awaits s' = awaits s" by (rule awaits_same) (simp add: s'_def)
  have sets: "inflight s' = inflight s" "claimed s' = claimed s" "settled s' = settled s"
    by (simp_all add: inflight_def claimed_def settled_def aw) (simp_all add: s'_def pendingIndices_def)
  have "poolInv port s0 s'"
  proof (rule poolInvI)
    show "isProcessing s' \<or> (\<forall>x\<in>set (workers s'). x = Finished)"
      using fin by (simp add: s'_def list_all_iff)
    show "w1 = w2" if "awaits s' w1 i" "awaits s' w2 i" for w1 w2 i
      using that D(7) by (simp add: aw)
  qed (use D in \<open>simp_all add: sets\<close>, simp_all add: s'_def pendingIndices_def)
  then show ?thesis by (simp add: s'_def)
qed

section \<open>The reassembly invariant\<close>

lemma reasmInv_same:
  assumes "reasmInv port s0 s" "settled s' = settled s" "pendingItems s' = pendingItems s"
    "nextIndexToAppend s' = nextIndexToAppend s" "completedTexts s' = completedTexts s"
    "finalText s' = finalText s"
  shows "reasmInv port s0 s'"
  using assms by (simp add: reasmInv_def firstPending_def)

lemma firstPending_le:
  assumes "poolInv port s0 s" "i \<in> claimed s"
  shows "firstPending s \<le> i"
proof -
  note D = poolInvD [OF assms(1)]
  have "hd (pendingIndices s) \<le> i"
    using pendingIndices_start(2) [OF D(1)] claimed_lt(2) [OF assms] by (rule hd_sorted_le)
  then show ?thesis using D(2) by (simp add: firstPending_def pendingIndices_def hd_map)
qed

text \<open>Publishing a chunk for a new index at or beyond the first one keeps the description.\<close>

lemma reasm_publish:
  assumes re: "reasm c f t0 D (ct, n, t)" and iD: "i \<notin> D" and fi: "f \<le> i"
  shows "reasm c f t0 (insert i D) (publish (i, c i) (ct, n, t))"
proof -
  define ct1 where "ct1 = AList.update i (c i) ct"
  from re have K: "f \<le> n"
    "\<And>j. map_of ct j = (if n \<le> j \<and> j \<in> D then Some (c j) else None)"
    "\<And>j. f \<le> j \<Longrightarrow> j < n \<Longrightarrow> j \<in> D"
    "n \<notin> D"
    "t = foldl appendChunk t0 (map c [f ..< n])"
    by (simp_all add: reasm_def)
  obtain ct' n' t' where loop: "tryAppendLoop ct1 n t = (ct', n', t')"
    by (metis prod_cases3)
  have ni: "n \<le> i"
  proof (rule ccontr)
    assume "\<not> n \<le> i"
    with fi have "i \<in> D" using K(3) by simp
    with iD show False ..
  qed
  have m1: "map_of ct1 j = (if n \<le> j \<and> j \<in> insert i D then Some (c j) else None)" for j
    using ni K(2) [of j] by (auto simp: ct1_def update_conv)
  note L = tryAppendLoop_spec [OF loop]
  from L have L1: "n \<le> n'" by simp
  from L have L2: "map_of ct1 j \<noteq> None" if "n \<le> j" "j < n'" for j using that by simp
  from L have L3: "map_of ct1 n' = None" by simp
  from L have L4: "map_of ct' j = (if n \<le> j \<and> j < n' then None else map_of ct1 j)" for j by simp
  from L have L5: "t' = foldl appendChunk t (map (\<lambda>j. the (map_of ct1 j)) [n ..< n'])" by simp
  have in_D: "j \<in> insert i D" if "n \<le> j" "j < n'" for j
    using L2 [OF that] m1 [of j] by (simp split: if_splits)
  have k1: "f \<le> n'" using K(1) L1 by simp
  have k2: "map_of ct' j = (if n' \<le> j \<and> j \<in> insert i D then Some (c j) else None)" for j
    using L1 m1 [of j] by (auto simp: L4)
  have k3: "j \<in> insert i D" if "f \<le> j" "j < n'" for j
  proof (cases "j < n")
    case True
    with that K(3) [of j] show ?thesis by simp
  next
    case False
    with that in_D [of j] show ?thesis by simp
  qed
  have k4: "n' \<notin> insert i D"
    using L3 L1 m1 [of n'] by (simp split: if_splits)
  have "map (\<lambda>j. the (map_of ct1 j)) [n ..< n'] = map c [n ..< n']"
  proof (rule map_cong [OF refl])
    fix j assume "j \<in> set [n ..< n']"
    then have "n \<le> j" "j < n'" by simp_all
    with in_D [of j] m1 [of j] show "the (map_of ct1 j) = c j" by simp
  qed
  with L5 have "t' = foldl appendChunk t0 (map c [f ..< n] @ map c [n ..< n'])"
    by (simp add: K(5))
  also have "map c [f ..< n] @ map c [n ..< n'] = map c [f ..< n']"
  proof -
    have "[f ..< n'] = [f ..< n] @ [n ..< n']"
      using upt_add_eq_append [of f n "n' - n"] K(1) L1 by simp
    then show ?thesis by simp
  qed
  finally have k5: "t' = foldl appendChunk t0 (map c [f ..< n'])" .
  have "publish (i, c i) (ct, n, t) = (ct', n', t')"
    using loop by (simp add: publish_def ct1_def)
  with k1 k2 k3 k4 k5 show ?thesis by (simp add: reasm_def)
qed

lemma reasm_fold:
  "reasm c f t0 D st \<Longrightarrow> distinct xs \<Longrightarrow> set xs \<inter> D = {} \<Longrightarrow> \<forall>i\<in>set xs. f \<le> i \<Longrightarrow>
   reasm c f t0 (D \<union> set xs) (foldl (\<lambda>st i. publish (i, c i) st) st xs)"
proof (induction xs arbitrary: D st)
  case Nil
  then show ?case by simp
next
  case (Cons i xs)
  obtain ct n t where st: "st = (ct, n, t)" by (cases st) auto
  from Cons.prems have "reasm c f t0 D (ct, n, t)" "i \<notin> D" "f \<le> i" by (auto simp: st)
  then have a: "reasm c f t0 (insert i D) (publish (i, c i) st)"
    unfolding st by (rule reasm_publish)
  have "reasm c f t0 (insert i D \<union> set xs) (foldl (\<lambda>st i. publish (i, c i) st) (publish (i, c i) st) xs)"
    using Cons.prems by (intro Cons.IH [OF a]) auto
  then show ?case by simp
qed

text \<open>
  Hence the reassembler by itself is indifferent to the order of arrival: whatever the
  order in which the chunks of the indices \<open>f, ..., f + P - 1\<close> are published, each once,
  the map ends empty, the frontier at \<open>f + P\<close>, and the text is the starting text joined
  with the chunks in index order.
\<close>

lemma reassembler_any_arrival_order:
  assumes "distinct xs" and "set xs = {f ..< f + P}"
  shows "foldl (\<lambda>st i. publish (i, c i) st) ([], f, t0) xs
       = ([], f + P, joinChunks (t0 # map c [f ..< f + P]))"
proof -
  define r where "r = foldl (\<lambda>st i. publish (i, c i) st) ([], f, t0) xs"
  obtain ct n t where "r = (ct, n, t)" by (cases r) auto
  then have st: "foldl (\<lambda>st i. publish (i, c i) st) ([], f, t0) xs = (ct, n, t)"
    by (simp add: r_def)
  have "reasm c f t0 {} ([], f, t0)" by (simp add: reasm_def)
  from reasm_fold [OF this assms(1)] assms(2)
  have "reasm c f t0 {f ..< f + P} (ct, n, t)" by (simp add: st)
  then have K: "f \<le> n" "\<And>i. map_of ct i = (if n \<le> i \<and> i \<in> {f ..< f + P} then Some (c i) else None)"
    "\<And>i. f \<le> i \<Longrightarrow> i < n \<Longrightarrow> i \<in> {f ..< f + P}" "n \<notin> {f ..< f + P}"
    "t = foldl appendChunk t0 (map c [f ..< n])"
    by (simp_all add: reasm_def)
  have n: "n = f + P"
  proof (rule ccontr)
    assume "n \<noteq> f + P"
    then consider "n < f + P" | "f + P < n" by linarith
    then show False
    proof cases
      case 1
      with K(1,4) show False by simp
    next
      case 2
      with K(3) [of "f + P"] show False by simp
    qed
  qed
  have "map_of ct = Map.empty" by (rule ext) (simp add: K(2) n)
  then have "ct = []" by simp
  with K(5) n st show ?thesis by (simp add: assemble_joinChunks)
qed

text \<open>A settlement in a run is such a publication.\<close>

lemma reasmInv_reasm:
  "reasmInv port s0 s \<longleftrightarrow>
     reasm (\<lambda>i. resultChunk (port i)) (firstPending s) (finalText s0) (settled s)
       (completedTexts s, nextIndexToAppend s, finalText s)"
  by (simp add: reasmInv_def reasm_def)

lemma reasmInv_settle:
  assumes inv: "poolInv port s0 s" and re: "reasmInv port s0 s"
    and w: "workerAt s w = Some (Awaiting it)"
  shows "reasmInv port s0 (processItem_settle w it (port (index it)) s)"
proof -
  define c where "c = index it"
  define s' where "s' = processItem_settle w it (port c) s"
  note eff = settle_effect [OF inv w c_def s'_def]
  note D = poolInvD [OF inv]
  have cns: "c \<notin> settled s" using eff(4) by (simp add: settled_def)
  have "c \<in> claimed s" using eff(4) D(6) by auto
  then have fc: "firstPending s \<le> c" by (rule firstPending_le [OF inv])
  obtain ct' n' t' where loop:
    "tryAppendLoop (AList.update c (resultChunk (port c)) (completedTexts s))
       (nextIndexToAppend s) (finalText s) = (ct', n', t')"
    by (metis prod_cases3)
  have fields: "completedTexts s' = ct'" "nextIndexToAppend s' = n'" "finalText s' = t'"
    using loop by (simp_all add: s'_def processItem_settle_eq tryAppendText_def c_def)
  have pub: "publish (c, resultChunk (port c)) (completedTexts s, nextIndexToAppend s, finalText s)
      = (ct', n', t')"
    using loop by (simp add: publish_def)
  have fp: "firstPending s' = firstPending s"
    by (simp add: firstPending_def s'_def processItem_settle_eq)
  from re have "reasm (\<lambda>i. resultChunk (port i)) (firstPending s) (finalText s0) (settled s)
       (completedTexts s, nextIndexToAppend s, finalText s)"
    by (simp only: reasmInv_reasm)
  from reasm_publish [OF this cns fc]
  have "reasm (\<lambda>i. resultChunk (port i)) (firstPending s) (finalText s0) (insert c (settled s))
       (ct', n', t')"
    by (simp only: pub)
  then have "reasmInv port s0 s'"
    by (simp only: reasmInv_reasm fp eff(3) fields)
  then show ?thesis by (simp add: s'_def c_def)
qed

section \<open>Every reachable state of a run satisfies both\<close>

lemma runInv_runWorker:
  assumes "runInv port s0 s" "workerAt s w = Some AtLoopHead"
  shows "runInv port s0 (runWorker w s)"
proof -
  from assms have p: "poolInv port s0 s" and r: "reasmInv port s0 s" by (simp_all add: runInv_def)
  have "reasmInv port s0 (runWorker w s)"
    using r settled_runWorker [OF p assms(2)] by (rule reasmInv_same) (simp_all add: runWorker_frame)
  with poolInv_runWorker [OF p assms(2)] show ?thesis by (simp add: runInv_def)
qed

lemma runInv_step:
  assumes inv: "runInv port s0 s" and st: "step port e s = Some s'"
  shows "runInv port s0 s'"
proof -
  from inv have p: "poolInv port s0 s" and r: "reasmInv port s0 s" by (simp_all add: runInv_def)
  show ?thesis
  proof (cases e)
    case (Progress w pr)
    with st obtain it where w: "workerAt s w = Some (Awaiting it)" and s': "s' = onProgress it pr s"
      by (auto split: option.splits worker.splits)
    have "awaits s' = awaits s" by (rule awaits_same) (simp add: s' onProgress_def)
    then have "settled s' = settled s"
      by (simp add: settled_def inflight_def claimed_def) (simp add: s' onProgress_def pendingIndices_def)
    with r have "reasmInv port s0 s'"
      by (rule reasmInv_same) (simp_all add: s' onProgress_def)
    with poolInv_onProgress [OF p w] show ?thesis by (simp add: runInv_def s')
  next
    case (Settle w)
    with st obtain it where w: "workerAt s w = Some (Awaiting it)"
      and s': "s' = processItem_settle w it (port (index it)) s"
      by (auto split: option.splits worker.splits)
    from poolInv_settle [OF p w] reasmInv_settle [OF p r w] show ?thesis
      by (simp add: runInv_def s')
  next
    case (Resume w)
    with st have w: "workerAt s w = Some AtLoopHead" and s': "s' = runWorker w s"
      by (auto split: option.splits worker.splits)
    from runInv_runWorker [OF inv w] show ?thesis by (simp add: s')
  next
    case Join
    with st have fin: "list_all (\<lambda>x. x = Finished) (workers s)" and s': "s' = s\<lparr>isProcessing := False\<rparr>"
      by (auto split: if_splits)
    have "awaits s' = awaits s" by (rule awaits_same) (simp add: s')
    then have "settled s' = settled s"
      by (simp add: settled_def inflight_def claimed_def) (simp add: s' pendingIndices_def)
    with r have "reasmInv port s0 s'"
      by (rule reasmInv_same) (simp_all add: s')
    with poolInv_join [OF p fin] show ?thesis by (simp add: runInv_def s')
  qed
qed

lemma runInv_exec:
  "runInv port s0 s \<Longrightarrow> exec port evs s = Some s' \<Longrightarrow> runInv port s0 s'"
proof (induction evs arbitrary: s)
  case Nil
  then show ?case by simp
next
  case (Cons e evs)
  from Cons.prems(2) obtain s1 where s1: "step port e s = Some s1" "exec port evs s1 = Some s'"
    by (auto split: option.splits)
  from Cons.IH [OF runInv_step [OF Cons.prems(1) s1(1)] s1(2)] show ?case .
qed

lemma runInv_foldl:
  "runInv port s0 s \<Longrightarrow> distinct ws \<Longrightarrow> \<forall>w\<in>set ws. workerAt s w = Some AtLoopHead \<Longrightarrow>
   runInv port s0 (foldl (\<lambda>t w. runWorker w t) s ws)"
proof (induction ws arbitrary: s)
  case Nil
  then show ?case by simp
next
  case (Cons w ws)
  have a: "runInv port s0 (runWorker w s)"
    using Cons.prems by (intro runInv_runWorker) simp_all
  have b: "\<forall>w'\<in>set ws. workerAt (runWorker w s) w' = Some AtLoopHead"
  proof
    fix w' assume w': "w' \<in> set ws"
    with Cons.prems(2) have "w' \<noteq> w" by auto
    with w' Cons.prems(3) show "workerAt (runWorker w s) w' = Some AtLoopHead"
      by (simp add: runWorker_other)
  qed
  from Cons.IH [OF a _ b] Cons.prems(2) show ?case by simp
qed

lemma runInv_initRun:
  assumes "pendingItemsOf (images s0) \<noteq> []"
  shows "runInv port s0 (initRun s0)"
proof -
  define s where "s = initRun s0"
  have na: "\<not> awaits s w i" for w i
    by (simp add: awaits_def workerAt_def s_def initRun_def)
  have inf: "inflight s = {}" using na by (simp add: inflight_def)
  have cl: "claimed s = {}" by (simp add: claimed_def s_def initRun_def)
  have sets: "inflight s = {}" "claimed s = {}" "settled s = {}"
    using inf cl by (simp_all add: settled_def)
  have "poolInv port s0 s"
  proof (rule poolInvI)
    show "w = w'" if "awaits s w i" for w w' i using that na by simp
  qed (use assms in \<open>simp_all add: sets\<close>, simp_all add: s_def initRun_def)
  moreover have "reasmInv port s0 s"
    by (simp add: reasmInv_def sets firstPending_def) (simp add: s_def initRun_def)
  ultimately show ?thesis by (simp add: runInv_def s_def)
qed

lemma runInv_start:
  assumes "\<not> isProcessing s0" "apiKey s0 \<noteq> []" "pendingItemsOf (images s0) \<noteq> []"
  shows "runInv port s0 (startBatchProcess s0)"
  unfolding startBatchProcess_run [OF assms]
proof (rule runInv_foldl [OF runInv_initRun [OF assms(3)]])
  show "distinct [0 ..< min CONCURRENCY_LIMIT (length (pendingItemsOf (images s0)))]" by simp
  show "\<forall>w\<in>set [0 ..< min CONCURRENCY_LIMIT (length (pendingItemsOf (images s0)))].
          workerAt (initRun s0) w = Some AtLoopHead"
    by (simp add: workerAt_def initRun_def)
qed

lemma runInv_reach:
  assumes "\<not> isProcessing s0" "apiKey s0 \<noteq> []" "pendingItemsOf (images s0) \<noteq> []"
    and "exec port evs (startBatchProcess s0) = Some s"
  shows "runInv port s0 s"
  using runInv_start [OF assms(1-3)] assms(4) by (rule runInv_exec)

lemma run_over:
  assumes inv: "runInv port s0 s" and over: "\<not> isProcessing s"
  shows "inflight s = {}" and "queuePointer s = length (pendingItems s)"
    and "settled s = set (pendingIndices s)" and "claimed s = set (pendingIndices s)"
proof -
  from inv have p: "poolInv port s0 s" by (simp add: runInv_def)
  note D = poolInvD [OF p]
  from D(10) over have fin: "\<forall>x\<in>set (workers s). x = Finished" by simp
  show inf: "inflight s = {}"
  proof -
    have "\<not> awaits s w i" for w i
    proof
      assume "awaits s w i"
      then obtain it where "w < length (workers s)" "workers s ! w = Awaiting it"
        by (auto simp: awaits_def dest: workerAt_length)
      then have "Awaiting it \<in> set (workers s)" by (metis nth_mem)
      with fin show False by auto
    qed
    then show ?thesis by (simp add: inflight_def)
  qed
  have "0 < length (workers s)" using D(2,5) by (simp add: CONCURRENCY_LIMIT_def)
  then have "workers s \<noteq> []" by simp
  then obtain x where "x \<in> set (workers s)" by (cases "workers s") auto
  with fin have "Finished \<in> set (workers s)" by auto
  then show q: "queuePointer s = length (pendingItems s)" by (rule D(8))
  then show cl: "claimed s = set (pendingIndices s)" by (simp add: claimed_def pendingIndices_def)
  then show "settled s = set (pendingIndices s)" by (simp add: settled_def inf)
qed

section \<open>Work left in a run\<close>

lemma weight_update:
  "w < length ws \<Longrightarrow>
   sum_list (map weight (ws[w := x])) + weight (ws ! w) = sum_list (map weight ws) + weight x"
proof (induction ws arbitrary: w)
  case Nil
  then show ?case by simp
next
  case (Cons a ws)
  then show ?case by (cases w) auto
qed

lemma remaining_step:
  assumes "step port e s = Some s'"
  shows "remaining s' + (if isWork e then 1 else 0) = remaining s"
proof (cases e)
  case (Progress w pr)
  with assms show ?thesis
    by (auto simp: remaining_def onProgress_def split: option.splits worker.splits)
next
  case (Settle w)
  with assms obtain it where w: "workerAt s w = Some (Awaiting it)"
    and s': "s' = processItem_settle w it (port (index it)) s"
    by (auto split: option.splits worker.splits)
  from w have wl: "w < length (workers s)" "workers s ! w = Awaiting it" by (simp_all add: workerAt_length)
  from weight_update [OF wl(1), of AtLoopHead] wl(2) show ?thesis
    by (simp add: Settle remaining_def s' processItem_settle_eq)
next
  case (Resume w)
  with assms have w: "workerAt s w = Some AtLoopHead" and s': "s' = runWorker w s"
    by (auto split: option.splits worker.splits)
  from w have wl: "w < length (workers s)" "workers s ! w = AtLoopHead" by (simp_all add: workerAt_length)
  show ?thesis
  proof (cases "queuePointer s < length (pendingItems s)")
    case True
    with weight_update [OF wl(1), of "Awaiting (pendingItems s ! queuePointer s)"] wl(2) show ?thesis
      by (simp add: Resume remaining_def s' runWorker_def processItem_begin_def)
  next
    case False
    with weight_update [OF wl(1), of Finished] wl(2) show ?thesis
      by (simp add: Resume remaining_def s' runWorker_def)
  qed
next
  case Join
  with assms show ?thesis by (auto simp: remaining_def split: if_splits)
qed

lemma remaining_exec:
  "exec port evs s = Some s' \<Longrightarrow> remaining s' + length (filter isWork evs) = remaining s"
proof (induction evs arbitrary: s)
  case Nil
  then show ?case by simp
next
  case (Cons e evs)
  from Cons.prems obtain s1 where s1: "step port e s = Some s1" "exec port evs s1 = Some s'"
    by (auto split: option.splits)
  from Cons.IH [OF s1(2)] remaining_step [OF s1(1)] show ?case by (simp split: if_splits)
qed

lemma sum_weight_zero: "sum_list (map weight ws) = 0 \<longleftrightarrow> (\<forall>x\<in>set ws. x = Finished)"
proof (induction ws)
  case Nil
  then show ?case by simp
next
  case (Cons a ws)
  then show ?case by (cases a) auto
qed

lemma remaining_zero:
  assumes inv: "runInv port s0 s"
  shows "remaining s = 0 \<longleftrightarrow> \<not> isProcessing s"
proof
  assume "remaining s = 0"
  then show "\<not> isProcessing s" by (simp add: remaining_def split: if_splits)
next
  assume over: "\<not> isProcessing s"
  from inv have p: "poolInv port s0 s" by (simp add: runInv_def)
  from poolInvD(10) [OF p] over have "\<forall>x\<in>set (workers s). x = Finished" by simp
  then have "sum_list (map weight (workers s)) = 0" by (simp only: sum_weight_zero)
  with run_over(2) [OF inv over] over show "remaining s = 0" by (simp add: remaining_def)
qed

lemma remaining_foldl:
  "distinct ws \<Longrightarrow> \<forall>w\<in>set ws. workerAt s w = Some AtLoopHead \<Longrightarrow>
   remaining (foldl (\<lambda>t w. runWorker w t) s ws) + length ws = remaining s"
proof (induction ws arbitrary: s)
  case Nil
  then show ?case by simp
next
  case (Cons w ws)
  have "step port (Resume w) s = Some (runWorker w s)" for port
    using Cons.prems(2) by simp
  from remaining_step [OF this] have a: "remaining (runWorker w s) + 1 = remaining s" by simp
  have b: "\<forall>w'\<in>set ws. workerAt (runWorker w s) w' = Some AtLoopHead"
  proof
    fix w' assume w': "w' \<in> set ws"
    with Cons.prems(1) have "w' \<noteq> w" by auto
    with w' Cons.prems(2) show "workerAt (runWorker w s) w' = Some AtLoopHead"
      by (simp add: runWorker_other)
  qed
  from Cons.IH [OF _ b] Cons.prems(1) a show ?case by simp
qed

lemma remaining_start:
  assumes "\<not> isProcessing s0" "apiKey s0 \<noteq> []" "pendingItemsOf (images s0) \<noteq> []"
  shows "remaining (startBatchProcess s0) = 2 * length (pendingItemsOf (images s0)) + 1"
proof -
  define m where "m = min CONCURRENCY_LIMIT (length (pendingItemsOf (images s0)))"
  have "sum_list (map weight (replicate m AtLoopHead)) = m"
    by (induction m) simp_all
  then have "remaining (initRun s0) = 2 * length (pendingItemsOf (images s0)) + m + 1"
    by (simp add: remaining_def initRun_def m_def)
  moreover have "remaining (foldl (\<lambda>t w. runWorker w t) (initRun s0) [0 ..< m]) + length [0 ..< m]
      = remaining (initRun s0)"
    by (rule remaining_foldl) (simp_all add: workerAt_def initRun_def m_def)
  ultimately show ?thesis
    by (simp add: startBatchProcess_run [OF assms] m_def)
qed

lemma no_deadlock:
  assumes inv: "runInv port s0 s" and run: "isProcessing s"
  shows "\<exists>e. isWork e \<and> step port e s \<noteq> None"
proof (cases "\<forall>x\<in>set (workers s). x = Finished")
  case True
  with run have "step port Join s \<noteq> None" by (simp add: list_all_iff)
  moreover have "isWork Join" by simp
  ultimately show ?thesis by blast
next
  case False
  then obtain w where w: "w < length (workers s)" "workers s ! w \<noteq> Finished"
    by (auto simp: in_set_conv_nth)
  show ?thesis
  proof (cases "workers s ! w")
    case (Awaiting it)
    with w have "step port (Settle w) s \<noteq> None" by (simp add: workerAt_def)
    moreover have "isWork (Settle w)" by simp
    ultimately show ?thesis by blast
  next
    case AtLoopHead
    with w have "step port (Resume w) s \<noteq> None" by (simp add: workerAt_def)
    moreover have "isWork (Resume w)" by simp
    ultimately show ?thesis by blast
  next
    case Finished
    with w show ?thesis by simp
  qed
qed

section \<open>Progress of pending and claimed items\<close>

text \<open>A claim sets the status of the claimed item and leaves every progress as it is.\<close>

lemma claim_keeps_progress:
  assumes "workerAt s w = Some AtLoopHead" and "queuePointer s < length (pendingItems s)"
    and "index (pendingItems s ! queuePointer s) = c" and "c < length (images s)"
  shows "step port (Resume w) s = Some (runWorker w s)
       \<and> workerAt (runWorker w s) w = Some (Awaiting (pendingItems s ! queuePointer s))
       \<and> status (images (runWorker w s) ! c) = Processing
       \<and> (\<forall>i<length (images s). progress (images (runWorker w s) ! i) = progress (images s ! i))"
proof -
  have wl: "w < length (workers s)" using assms(1) by (simp add: workerAt_length)
  have im: "images (runWorker w s) = mapAt c (\<lambda>im. im\<lparr>status := Processing\<rparr>) (images s)"
    using assms(2,3) by (simp add: runWorker_def processItem_begin_def)
  have "workerAt (runWorker w s) w = Some (Awaiting (pendingItems s ! queuePointer s))"
    using assms(2) wl by (simp add: runWorker_def processItem_begin_def workerAt_def)
  moreover have "status (images (runWorker w s) ! c) = Processing"
    using assms(4) by (simp add: im nth_mapAt)
  moreover have "\<forall>i<length (images s). progress (images (runWorker w s) ! i) = progress (images s ! i)"
    by (simp add: im nth_mapAt)
  ultimately show ?thesis using assms(1) by simp
qed

text \<open>
  Only the progress callback writes a progress, and only to an item in flight; so pending
  items keep progress 0 through every step of a run.
\<close>

lemma pendingAtZero_nth:
  "pendingAtZero imgs \<longleftrightarrow> (\<forall>i<length imgs. status (imgs ! i) = Pending \<longrightarrow> progress (imgs ! i) = 0)"
  by (simp add: pendingAtZero_def all_set_conv_all_nth)

lemma pendingAtZero_mapAt:
  assumes "pendingAtZero imgs"
    and "c < length imgs \<Longrightarrow> status (f (imgs ! c)) = Pending \<Longrightarrow> progress (f (imgs ! c)) = 0"
  shows "pendingAtZero (mapAt c f imgs)"
  unfolding pendingAtZero_nth
proof (intro allI impI)
  fix i assume i: "i < length (mapAt c f imgs)" and p: "status (mapAt c f imgs ! i) = Pending"
  from i have il: "i < length imgs" by simp
  show "progress (mapAt c f imgs ! i) = 0"
  proof (cases "i = c")
    case True
    with il p assms(2) show ?thesis by (simp add: nth_mapAt)
  next
    case False
    with il p assms(1) show ?thesis by (simp add: nth_mapAt pendingAtZero_nth)
  qed
qed

lemma progress_mapAt_status:
  "map progress (mapAt c (\<lambda>im. im\<lparr>status := st\<rparr>) imgs) = map progress imgs"
  by (rule nth_equalityI) (simp_all add: nth_mapAt)

lemma progress_runWorker: "map progress (images (runWorker w s)) = map progress (images s)"
  by (simp add: runWorker_def processItem_begin_def progress_mapAt_status)

lemma progress_foldl_runWorker:
  "map progress (images (foldl (\<lambda>t w. runWorker w t) s ws)) = map progress (images s)"
  by (induction ws arbitrary: s) (simp_all add: progress_runWorker)

lemma progress_startBatchProcess:
  "map progress (images (startBatchProcess s)) = map progress (images s)"
  by (simp add: startBatchProcess_def progress_foldl_runWorker split: list.splits)

lemma pendingAtZero_runWorker:
  assumes "pendingAtZero (images s)"
  shows "pendingAtZero (images (runWorker w s))"
proof (cases "queuePointer s < length (pendingItems s)")
  case True
  have "pendingAtZero (mapAt (index (pendingItems s ! queuePointer s))
          (\<lambda>im. im\<lparr>status := Processing\<rparr>) (images s))"
    using assms by (rule pendingAtZero_mapAt) simp
  with True show ?thesis by (simp add: runWorker_def processItem_begin_def)
next
  case False
  with assms show ?thesis by (simp add: runWorker_def)
qed

lemma pendingAtZero_foldl:
  "pendingAtZero (images s) \<Longrightarrow> pendingAtZero (images (foldl (\<lambda>t w. runWorker w t) s ws))"
  by (induction ws arbitrary: s) (simp_all add: pendingAtZero_runWorker)

lemma pendingAtZero_start:
  "pendingAtZero (images s) \<Longrightarrow> pendingAtZero (images (startBatchProcess s))"
  by (simp add: startBatchProcess_def pendingAtZero_foldl split: list.splits)

lemma pendingAtZero_step:
  assumes inv: "runInv port s0 s" and z: "pendingAtZero (images s)" and st: "step port e s = Some s'"
  shows "pendingAtZero (images s')"
proof -
  from inv have p: "poolInv port s0 s" by (simp add: runInv_def)
  note D = poolInvD [OF p]
  show ?thesis
  proof (cases e)
    case (Progress w pr)
    with st obtain it where w: "workerAt s w = Some (Awaiting it)" and s': "s' = onProgress it pr s"
      by (auto split: option.splits worker.splits)
    have "index it \<in> inflight s" using w by (auto simp: inflight_def awaits_def)
    from D(12) [OF this] have pr: "status (images s ! index it) = Processing" by simp
    have "pendingAtZero (mapAt (index it) (\<lambda>im. im\<lparr>progress := pr\<rparr>) (images s))"
      using z by (rule pendingAtZero_mapAt) (simp add: pr)
    then show ?thesis by (simp add: s' onProgress_def)
  next
    case (Settle w)
    with st obtain it where s': "s' = processItem_settle w it (port (index it)) s"
      by (auto split: option.splits worker.splits)
    have "pendingAtZero (mapAt (index it) (settleImage (port (index it))) (images s))"
      using z by (rule pendingAtZero_mapAt) (simp add: settleImage_def split: sum.splits)
    then show ?thesis by (simp add: s' processItem_settle_eq)
  next
    case (Resume w)
    with st have "s' = runWorker w s" by (auto split: option.splits worker.splits)
    with z show ?thesis by (simp add: pendingAtZero_runWorker)
  next
    case Join
    with st have "s' = s\<lparr>isProcessing := False\<rparr>" by (auto split: if_splits)
    with z show ?thesis by simp
  qed
qed

lemma pendingAtZero_exec:
  "runInv port s0 s \<Longrightarrow> pendingAtZero (images s) \<Longrightarrow> exec port evs s = Some s' \<Longrightarrow>
   pendingAtZero (images s')"
proof (induction evs arbitrary: s)
  case Nil
  then show ?case by simp
next
  case (Cons e evs)
  from Cons.prems(3) obtain s1 where s1: "step port e s = Some s1" "exec port evs s1 = Some s'"
    by (auto split: option.splits)
  from Cons.IH [OF runInv_step [OF Cons.prems(1) s1(1)] pendingAtZero_step [OF Cons.prems(1,2) s1(1)] s1(2)]
  show ?case .
qed

lemma pendingAtZero_handleCapture:
  "pendingAtZero (images s) \<Longrightarrow> pendingAtZero (images (handleCapture ident url s))"
  by (simp add: pendingAtZero_def handleCapture_def newImage_def)

section \<open>Evaluating runs on concrete states\<close>

lemmas run_simps = startBatchProcess_def pendingItemsOf_def CONCURRENCY_LIMIT_def runWorker_def
  processItem_begin_def processItem_settle_def onProgress_def mapAt_def workerAt_def tryAppendText_def
  tryAppendLoop.simps appendChunk_def PLACEHOLDER_def BLANK_LINE_def upt_rec
  resultChunk_def joinChunks_def firstPending_def remaining_def

lemma orElse_nonempty: "b \<noteq> [] \<Longrightarrow> orElse a b \<noteq> []"
  by (simp add: orElse_def split: option.splits)

section \<open>The claims\<close>

subsection \<open>C1: order of the output\<close>

text \<open>
  Claim C1, as amended. Take a run whose pending indices are consecutive,
  \<open>f, ..., f + P - 1\<close>, and any schedule that leads to its end. The final text is the text
  the run started from followed by the chunk of every dispatched item (its transcribed
  text, or the placeholder if its call was rejected) in index order, the non-empty
  pieces joined by exactly one separator; an empty chunk adds neither text nor separator.
  The frontier has passed every dispatched index, empty chunks included, and the map of
  completed texts is empty.
\<close>

theorem reassembly_in_index_order:
  assumes "\<not> isProcessing s0" and "apiKey s0 \<noteq> []"
    and "map index (pendingItemsOf (images s0)) = [f ..< f + P]" and "0 < P"
    and "exec port evs (startBatchProcess s0) = Some s" and "\<not> isProcessing s"
  shows "finalText s = joinChunks (finalText s0 # map (\<lambda>i. resultChunk (port i)) [f ..< f + P])
       \<and> nextIndexToAppend s = f + P \<and> completedTexts s = []"
proof -
  have ne: "pendingItemsOf (images s0) \<noteq> []"
  proof
    assume "pendingItemsOf (images s0) = []"
    with assms(3) have "[f ..< f + P] = []" by simp
    with assms(4) show False by simp
  qed
  have inv: "runInv port s0 s" using assms(1,2) ne assms(5) by (rule runInv_reach)
  then have p: "poolInv port s0 s" and r: "reasmInv port s0 s" by (simp_all add: runInv_def)
  have P: "pendingIndices s = [f ..< f + P]"
    using poolInvD(1) [OF p] assms(3) by (simp add: pendingIndices_def)
  have st: "settled s = {f ..< f + P}" using run_over(3) [OF inv assms(6)] P by simp
  have fp: "firstPending s = f"
  proof -
    have "firstPending s = hd (pendingIndices s)"
      using poolInvD(2) [OF p] by (simp add: firstPending_def pendingIndices_def hd_map)
    then show ?thesis using assms(4) by (simp add: P)
  qed
  define n where "n = nextIndexToAppend s"
  from r have K: "f \<le> n" "\<And>i. f \<le> i \<Longrightarrow> i < n \<Longrightarrow> i \<in> settled s" "n \<notin> settled s"
    "finalText s = foldl appendChunk (finalText s0) (map (\<lambda>i. resultChunk (port i)) [f ..< n])"
    "\<And>i. map_of (completedTexts s) i = (if n \<le> i \<and> i \<in> settled s then Some (resultChunk (port i)) else None)"
    by (simp_all add: reasmInv_def fp n_def)
  have n: "n = f + P"
  proof (rule ccontr)
    assume "n \<noteq> f + P"
    then consider "n < f + P" | "f + P < n" by linarith
    then show False
    proof cases
      case 1
      with K(1,3) show False by (simp add: st)
    next
      case 2
      with K(2) [of "f + P"] show False by (simp add: st)
    qed
  qed
  have "map_of (completedTexts s) = Map.empty"
    by (rule ext) (simp add: K(5) n st)
  then have "completedTexts s = []" by simp
  with K(4) show ?thesis by (simp add: n assemble_joinChunks n_def [symmetric])
qed

theorem reassembly_in_index_order_witness:
  "\<not> isProcessing (pages abc) \<and> apiKey (pages abc) \<noteq> []
   \<and> map index (pendingItemsOf (images (pages abc))) = [0 ..< 0 + 3]
   \<and> exec portA_C threeOutOfOrder (startBatchProcess (pages abc)) = Some (runTo portA_C threeOutOfOrder (pages abc))
   \<and> \<not> isProcessing (runTo portA_C threeOutOfOrder (pages abc))
   \<and> finalText (runTo portA_C threeOutOfOrder (pages abc)) = ''A'' @ BLANK_LINE @ ''C''
   \<and> nextIndexToAppend (runTo portA_C threeOutOfOrder (pages abc)) = 3"
proof -
  have h1: "\<not> isProcessing (pages abc)"
    by (simp add: run_simps newImage_def appState_def handleCapture_def pages_def abc_def portA_C_def
      threeOutOfOrder_def runTo_def)
  have h2: "apiKey (pages abc) \<noteq> []"
    by (simp add: run_simps newImage_def appState_def handleCapture_def pages_def abc_def portA_C_def
      threeOutOfOrder_def runTo_def)
  have h3: "map index (pendingItemsOf (images (pages abc))) = [0 ..< 0 + 3]"
    by (simp add: run_simps newImage_def appState_def handleCapture_def pages_def abc_def portA_C_def
      threeOutOfOrder_def runTo_def)
  have h4: "0 < (3::nat)" by simp
  have h5: "exec portA_C threeOutOfOrder (startBatchProcess (pages abc)) = Some (runTo portA_C threeOutOfOrder (pages abc))"
    by (simp add: run_simps newImage_def appState_def handleCapture_def pages_def abc_def portA_C_def
      threeOutOfOrder_def runTo_def)
  have h6: "\<not> isProcessing (runTo portA_C threeOutOfOrder (pages abc))"
    by (simp add: run_simps newImage_def appState_def handleCapture_def pages_def abc_def portA_C_def
      threeOutOfOrder_def runTo_def)
  have j: "joinChunks (finalText (pages abc) # map (\<lambda>i. resultChunk (portA_C i)) [0 ..< 0 + 3])
      = ''A'' @ BLANK_LINE @ ''C''"
    by (simp add: run_simps newImage_def appState_def handleCapture_def pages_def abc_def portA_C_def
      threeOutOfOrder_def runTo_def)
  from reassembly_in_index_order [OF h1 h2 h3 h4 h5 h6] h1 h2 h3 h5 h6 j show ?thesis by simp
qed

text \<open>
  The claim as stated speaks of the chunks of the dispatched items only. A run started on
  a document that already has text appends to it: here the first page was transcribed
  to \<open>A\<close> in an earlier run, the second run dispatches index 1 alone, and the output is
  \<open>A\<close>, separator, \<open>B\<close>.
\<close>

theorem reassembly_appends_to_earlier_text:
  "\<not> isProcessing secondBatch \<and> finalText secondBatch = ''A''
   \<and> map index (pendingItemsOf (images secondBatch)) = [1]
   \<and> exec portABC oneItem (startBatchProcess secondBatch) = Some (runTo portABC oneItem secondBatch)
   \<and> \<not> isProcessing (runTo portABC oneItem secondBatch)
   \<and> finalText (runTo portABC oneItem secondBatch) = ''A'' @ BLANK_LINE @ ''B''
   \<and> joinChunks (map (\<lambda>i. resultChunk (portABC i)) [1]) = ''B''
   \<and> finalText (runTo portABC oneItem secondBatch) \<noteq> joinChunks (map (\<lambda>i. resultChunk (portABC i)) [1])"
  by (simp add: run_simps newImage_def appState_def handleCapture_def pages_def portABC_def
      oneItem_def runTo_def secondBatch_def)

subsection \<open>C2: the buffer at the end of a run\<close>

text \<open>
  Claim C2 says that at the end of every run, also one whose pending indices have gaps,
  the map of completed texts is empty and the frontier is one past the last dispatched
  index. The code at such a run: pages 0 and 2 failed in a first run and page 1
  succeeded; the second run dispatches 0 and 2 and both succeed. The frontier stops at
  index 1, which this run never publishes, and the text of page 2 stays in the map: it
  never reaches the output although the page is marked completed.
\<close>

theorem gap_strands_later_chunk:
  "map status (images partlyFailed) = [Error, Completed, Error]
   \<and> \<not> isProcessing partlyFailed
   \<and> finalText partlyFailed = PLACEHOLDER @ BLANK_LINE @ ''B'' @ BLANK_LINE @ PLACEHOLDER
   \<and> exec portABC twoItems (startBatchProcess partlyFailed) = Some (runTo portABC twoItems partlyFailed)
   \<and> \<not> isProcessing (runTo portABC twoItems partlyFailed)
   \<and> map index (pendingItems (runTo portABC twoItems partlyFailed)) = [0, 2]
   \<and> map snd (portCalls (runTo portABC twoItems partlyFailed)) = [0, 2]
   \<and> map status (images (runTo portABC twoItems partlyFailed)) = [Completed, Completed, Completed]
   \<and> completedTexts (runTo portABC twoItems partlyFailed) = [(2, ''C'')]
   \<and> nextIndexToAppend (runTo portABC twoItems partlyFailed) = 1
   \<and> finalText (runTo portABC twoItems partlyFailed)
       = PLACEHOLDER @ BLANK_LINE @ ''B'' @ BLANK_LINE @ PLACEHOLDER @ BLANK_LINE @ ''A''"
  by (simp add: run_simps newImage_def appState_def handleCapture_def pages_def abc_def portABC_def
      portOnlyB_def threeOutOfOrder_def twoItems_def runTo_def partlyFailed_def)

subsection \<open>C3: every pending index is claimed once, in order\<close>

text \<open>
  Claim C3. At every state of a run, the transcription port has been called for exactly
  the first \<open>queuePointer\<close> pending indices, in the order of the pending list and each one
  once (each log entry names the one worker that claimed the index); when the run is
  over it has been called for every pending index. The pending indices are those of
  the items that were not completed at the start.
\<close>

theorem each_pending_index_claimed_once:
  assumes "\<not> isProcessing s0" and "apiKey s0 \<noteq> []" and "pendingItemsOf (images s0) \<noteq> []"
    and "exec port evs (startBatchProcess s0) = Some s"
  shows "map snd (portCalls s) = take (queuePointer s) (map index (pendingItemsOf (images s0)))
       \<and> distinct (map snd (portCalls s))
       \<and> (\<not> isProcessing s \<longrightarrow> map snd (portCalls s) = map index (pendingItemsOf (images s0)))
       \<and> map index (pendingItemsOf (images s0))
           = filter (\<lambda>i. status (images s0 ! i) \<noteq> Completed) [0 ..< length (images s0)]"
proof -
  have inv: "runInv port s0 s" using assms by (rule runInv_reach)
  then have p: "poolInv port s0 s" by (simp add: runInv_def)
  note D = poolInvD [OF p]
  have a: "map snd (portCalls s) = take (queuePointer s) (map index (pendingItemsOf (images s0)))"
    using D(9) D(1) by (simp add: pendingIndices_def)
  have "distinct (pendingIndices s)" using D(1) by (rule pendingIndices_start(1))
  then have b: "distinct (map snd (portCalls s))" by (simp add: D(9))
  have c: "\<not> isProcessing s \<longrightarrow> map snd (portCalls s) = map index (pendingItemsOf (images s0))"
  proof
    assume "\<not> isProcessing s"
    from run_over(2) [OF inv this] a D(1) show "map snd (portCalls s) = map index (pendingItemsOf (images s0))"
      by simp
  qed
  from a b c index_pendingItemsOf show ?thesis by blast
qed

theorem each_pending_index_claimed_once_witness:
  "\<not> isProcessing (pages abc) \<and> apiKey (pages abc) \<noteq> [] \<and> pendingItemsOf (images (pages abc)) \<noteq> []
   \<and> exec portABC threeOutOfOrder (startBatchProcess (pages abc)) = Some (runTo portABC threeOutOfOrder (pages abc))
   \<and> \<not> isProcessing (runTo portABC threeOutOfOrder (pages abc))
   \<and> map snd (portCalls (runTo portABC threeOutOfOrder (pages abc))) = [0, 1, 2]
   \<and> distinct (map snd (portCalls (runTo portABC threeOutOfOrder (pages abc))))"
proof -
  have h1: "\<not> isProcessing (pages abc)"
    by (simp add: run_simps newImage_def appState_def handleCapture_def pages_def abc_def portABC_def
      threeOutOfOrder_def runTo_def)
  have h2: "apiKey (pages abc) \<noteq> []"
    by (simp add: run_simps newImage_def appState_def handleCapture_def pages_def abc_def portABC_def
      threeOutOfOrder_def runTo_def)
  have h3: "pendingItemsOf (images (pages abc)) \<noteq> []"
    by (simp add: run_simps newImage_def appState_def handleCapture_def pages_def abc_def portABC_def
      threeOutOfOrder_def runTo_def)
  have h4: "exec portABC threeOutOfOrder (startBatchProcess (pages abc)) = Some (runTo portABC threeOutOfOrder (pages abc))"
    by (simp add: run_simps newImage_def appState_def handleCapture_def pages_def abc_def portABC_def
      threeOutOfOrder_def runTo_def)
  have h5: "\<not> isProcessing (runTo portABC threeOutOfOrder (pages abc))"
    by (simp add: run_simps newImage_def appState_def handleCapture_def pages_def abc_def portABC_def
      threeOutOfOrder_def runTo_def)
  have p: "map index (pendingItemsOf (images (pages abc))) = [0, 1, 2]"
    by (simp add: run_simps newImage_def appState_def handleCapture_def pages_def abc_def portABC_def
      threeOutOfOrder_def runTo_def)
  note T = each_pending_index_claimed_once [OF h1 h2 h3 h4]
  from T h5 have a: "map snd (portCalls (runTo portABC threeOutOfOrder (pages abc)))
      = map index (pendingItemsOf (images (pages abc)))" by blast
  from T have b: "distinct (map snd (portCalls (runTo portABC threeOutOfOrder (pages abc))))" by blast
  from a p have c: "map snd (portCalls (runTo portABC threeOutOfOrder (pages abc))) = [0, 1, 2]"
    by simp
  from h1 h2 h3 h4 h5 b c show ?thesis by blast
qed

subsection \<open>C4: a failed call stays local\<close>

text \<open>
  Claim C4. At every state of a run, if the call a worker waits for is rejected, then
  the settlement sets the item to \<open>Error\<close>, the run goes on with that worker back at its
  loop, and the placeholder is either held in the map under the item's index or, when
  the frontier has passed the index, part of the output at the item's position. Whatever
  the outcomes of the calls, the run cannot get stuck while it is processing, and after
  exactly \<open>2 * P + 1\<close> working events (a settlement and a resumption per item, and the
  join) it is over: it ends provided the calls settle.
\<close>

theorem failure_is_contained:
  assumes "\<not> isProcessing s0" and "apiKey s0 \<noteq> []" and "pendingItemsOf (images s0) \<noteq> []"
    and "exec port evs (startBatchProcess s0) = Some s"
  shows "(\<forall>w it e. workerAt s w = Some (Awaiting it) \<and> port (index it) = Inl e \<longrightarrow>
            (\<exists>s'. step port (Settle w) s = Some s' \<and> status (images s' ! index it) = Error \<and>
                  isProcessing s' \<and> workerAt s' w = Some AtLoopHead \<and>
                  (map_of (completedTexts s') (index it) = Some PLACEHOLDER \<or>
                   (firstPending s' \<le> index it \<and> index it < nextIndexToAppend s' \<and>
                    finalText s' = joinChunks (finalText s0 #
                       map (\<lambda>i. resultChunk (port i)) [firstPending s' ..< nextIndexToAppend s'])))))
       \<and> length (filter isWork evs) + remaining s = 2 * length (pendingItemsOf (images s0)) + 1
       \<and> (isProcessing s \<longrightarrow> (\<exists>e. isWork e \<and> step port e s \<noteq> None))
       \<and> (remaining s = 0 \<longleftrightarrow> \<not> isProcessing s)"
proof -
  have inv: "runInv port s0 s" using assms by (rule runInv_reach)
  then have p: "poolInv port s0 s" by (simp add: runInv_def)
  note D = poolInvD [OF p]
  have a: "\<forall>w it e. workerAt s w = Some (Awaiting it) \<and> port (index it) = Inl e \<longrightarrow>
            (\<exists>s'. step port (Settle w) s = Some s' \<and> status (images s' ! index it) = Error \<and>
                  isProcessing s' \<and> workerAt s' w = Some AtLoopHead \<and>
                  (map_of (completedTexts s') (index it) = Some PLACEHOLDER \<or>
                   (firstPending s' \<le> index it \<and> index it < nextIndexToAppend s' \<and>
                    finalText s' = joinChunks (finalText s0 #
                       map (\<lambda>i. resultChunk (port i)) [firstPending s' ..< nextIndexToAppend s']))))"
  proof (intro allI impI)
    fix w it e
    assume h: "workerAt s w = Some (Awaiting it) \<and> port (index it) = Inl e"
    then have w: "workerAt s w = Some (Awaiting it)" and fail: "port (index it) = Inl e" by simp_all
    define c where "c = index it"
    define s' where "s' = processItem_settle w it (port c) s"
    have st: "step port (Settle w) s = Some s'" using w by (simp add: s'_def c_def)
    have inv': "runInv port s0 s'" using inv st by (rule runInv_step)
    then have p': "poolInv port s0 s'" and r': "reasmInv port s0 s'" by (simp_all add: runInv_def)
    note eff = settle_effect [OF p w c_def s'_def]
    from w have wl: "w < length (workers s)" and ww: "workers s ! w = Awaiting it"
      by (simp_all add: workerAt_length)
    have "images s' ! c = settleImage (port c) (images s ! c)"
      using eff(7) D(3) by (simp add: eff(6) nth_mapAt)
    then have e1: "status (images s' ! c) = Error"
      using fail by (simp add: c_def settleImage_def)
    have "Awaiting it \<in> set (workers s)" using wl ww by (metis nth_mem)
    with D(10) have "isProcessing s" by auto
    then have e2: "isProcessing s'" by (simp add: s'_def processItem_settle_eq)
    have e3: "workerAt s' w = Some AtLoopHead"
      using wl by (simp add: s'_def processItem_settle_eq workerAt_def)
    have cs: "c \<in> settled s'" by (simp add: eff(3))
    then have cc: "c \<in> claimed s'" by (simp add: settled_def)
    have rc: "resultChunk (port c) = PLACEHOLDER" using fail by (simp add: resultChunk_def c_def)
    from r' have K: "map_of (completedTexts s') c =
          (if nextIndexToAppend s' \<le> c \<and> c \<in> settled s' then Some (resultChunk (port c)) else None)"
      "finalText s' = foldl appendChunk (finalText s0)
          (map (\<lambda>i. resultChunk (port i)) [firstPending s' ..< nextIndexToAppend s'])"
      by (simp_all add: reasmInv_def)
    have e4: "map_of (completedTexts s') c = Some PLACEHOLDER \<or>
                   (firstPending s' \<le> c \<and> c < nextIndexToAppend s' \<and>
                    finalText s' = joinChunks (finalText s0 #
                       map (\<lambda>i. resultChunk (port i)) [firstPending s' ..< nextIndexToAppend s']))"
    proof (cases "nextIndexToAppend s' \<le> c")
      case True
      with K(1) cs rc show ?thesis by simp
    next
      case False
      moreover have "firstPending s' \<le> c" using p' cc by (rule firstPending_le)
      ultimately show ?thesis using K(2) by (simp add: assemble_joinChunks)
    qed
    from st e1 e2 e3 e4
    show "\<exists>s'. step port (Settle w) s = Some s' \<and> status (images s' ! index it) = Error \<and>
                  isProcessing s' \<and> workerAt s' w = Some AtLoopHead \<and>
                  (map_of (completedTexts s') (index it) = Some PLACEHOLDER \<or>
                   (firstPending s' \<le> index it \<and> index it < nextIndexToAppend s' \<and>
                    finalText s' = joinChunks (finalText s0 #
                       map (\<lambda>i. resultChunk (port i)) [firstPending s' ..< nextIndexToAppend s'])))"
      unfolding c_def by blast
  qed
  have b: "length (filter isWork evs) + remaining s = 2 * length (pendingItemsOf (images s0)) + 1"
    using remaining_exec [OF assms(4)] remaining_start [OF assms(1-3)] by simp
  have c: "isProcessing s \<longrightarrow> (\<exists>e. isWork e \<and> step port e s \<noteq> None)"
    using no_deadlock [OF inv] by blast
  have d: "remaining s = 0 \<longleftrightarrow> \<not> isProcessing s" using inv by (rule remaining_zero)
  from a b c d show ?thesis by blast
qed

theorem failure_is_contained_witness:
  "\<not> isProcessing (pages [''a'', ''b'']) \<and> apiKey (pages [''a'', ''b'']) \<noteq> []
   \<and> pendingItemsOf (images (pages [''a'', ''b''])) \<noteq> []
   \<and> exec portFails [] (startBatchProcess (pages [''a'', ''b''])) = Some (startBatchProcess (pages [''a'', ''b'']))
   \<and> workerAt (startBatchProcess (pages [''a'', ''b''])) 0 = Some (Awaiting \<lparr>img = newImage ''a'' ''blob:a'', index = 0\<rparr>)
   \<and> portFails 0 = Inl ExtractFailed
   \<and> isProcessing (startBatchProcess (pages [''a'', ''b'']))
   \<and> (\<exists>s'. step portFails (Settle 0) (startBatchProcess (pages [''a'', ''b''])) = Some s'
         \<and> status (images s' ! 0) = Error \<and> isProcessing s' \<and> workerAt s' 0 = Some AtLoopHead)
   \<and> remaining (startBatchProcess (pages [''a'', ''b''])) = 5
   \<and> (\<exists>e. isWork e \<and> step portFails e (startBatchProcess (pages [''a'', ''b''])) \<noteq> None)
   \<and> exec portFails twoItems (startBatchProcess (pages [''a'', ''b''])) = Some (runTo portFails twoItems (pages [''a'', ''b'']))
   \<and> length (filter isWork twoItems) = 5
   \<and> remaining (runTo portFails twoItems (pages [''a'', ''b''])) = 0
   \<and> \<not> isProcessing (runTo portFails twoItems (pages [''a'', ''b'']))"
proof -
  let ?s0 = "pages [''a'', ''b'']"
  have h1: "\<not> isProcessing ?s0"
    by (simp add: run_simps newImage_def appState_def handleCapture_def pages_def portFails_def
      twoItems_def runTo_def)
  have h2: "apiKey ?s0 \<noteq> []"
    by (simp add: run_simps newImage_def appState_def handleCapture_def pages_def portFails_def
      twoItems_def runTo_def)
  have h3: "pendingItemsOf (images ?s0) \<noteq> []"
    by (simp add: run_simps newImage_def appState_def handleCapture_def pages_def portFails_def
      twoItems_def runTo_def)
  have h4: "exec portFails [] (startBatchProcess ?s0) = Some (startBatchProcess ?s0)" by simp
  have h5: "exec portFails twoItems (startBatchProcess ?s0) = Some (runTo portFails twoItems ?s0)"
    by (simp add: run_simps newImage_def appState_def handleCapture_def pages_def portFails_def
      twoItems_def runTo_def)
  have w: "workerAt (startBatchProcess ?s0) 0 = Some (Awaiting \<lparr>img = newImage ''a'' ''blob:a'', index = 0\<rparr>)"
    by (simp add: run_simps newImage_def appState_def handleCapture_def pages_def portFails_def
      twoItems_def runTo_def)
  have f: "portFails 0 = Inl ExtractFailed" by (simp add: portFails_def)
  have run: "isProcessing (startBatchProcess ?s0)"
    by (simp add: run_simps newImage_def appState_def handleCapture_def pages_def portFails_def
      twoItems_def runTo_def)
  have len: "length (pendingItemsOf (images ?s0)) = 2" "length (filter isWork twoItems) = 5"
    by (simp_all add: run_simps newImage_def appState_def handleCapture_def pages_def portFails_def
      twoItems_def runTo_def)
  note A = failure_is_contained [OF h1 h2 h3 h4]
  note B = failure_is_contained [OF h1 h2 h3 h5]
  from A w f have a1: "\<exists>s'. step portFails (Settle 0) (startBatchProcess ?s0) = Some s'
         \<and> status (images s' ! 0) = Error \<and> isProcessing s' \<and> workerAt s' 0 = Some AtLoopHead"
    by fastforce
  from A len have a2: "remaining (startBatchProcess ?s0) = 5" by simp
  from A run have a3: "\<exists>e. isWork e \<and> step portFails e (startBatchProcess ?s0) \<noteq> None" by blast
  from B len have b1: "remaining (runTo portFails twoItems ?s0) = 0" by simp
  with B have b2: "\<not> isProcessing (runTo portFails twoItems ?s0)" by blast
  from h1 h2 h3 h4 h5 w f run a1 a2 a3 b1 b2 len(2) show ?thesis by blast
qed

subsection \<open>C5: at most three items are processing\<close>

text \<open>
  Claim C5. A run over \<open>P\<close> pending items, started when no item is processing, has
  \<open>min 3 P\<close> workers, and in none of its states are more than 3 items in status
  \<open>Processing\<close>. When the run is over no item is processing, so the next run starts in
  such a state again.
\<close>

theorem at_most_three_processing:
  assumes "\<not> isProcessing s0" and "apiKey s0 \<noteq> []" and "pendingItemsOf (images s0) \<noteq> []"
    and "\<forall>im\<in>set (images s0). status im \<noteq> Processing"
    and "exec port evs (startBatchProcess s0) = Some s"
  shows "length (workers s) = min 3 (length (pendingItemsOf (images s0)))
       \<and> length (filter (\<lambda>im. status im = Processing) (images s)) \<le> 3
       \<and> (\<not> isProcessing s \<longrightarrow> (\<forall>im\<in>set (images s). status im \<noteq> Processing))"
proof -
  have inv: "runInv port s0 s" using assms(1-3,5) by (rule runInv_reach)
  then have p: "poolInv port s0 s" by (simp add: runInv_def)
  note D = poolInvD [OF p]
  have len: "length (workers s) = min 3 (length (pendingItemsOf (images s0)))"
    using D(5) D(1) by (simp add: CONCURRENCY_LIMIT_def)
  define g where "g = (\<lambda>w. case workers s ! w of Awaiting it \<Rightarrow> index it | _ \<Rightarrow> 0)"
  have inf: "inflight s \<subseteq> g ` {..< length (workers s)}"
  proof
    fix i assume "i \<in> inflight s"
    then obtain w it where "workerAt s w = Some (Awaiting it)" "index it = i"
      by (auto simp: inflight_def awaits_def)
    then have "w < length (workers s)" "g w = i" by (auto simp: g_def dest: workerAt_length)
    then show "i \<in> g ` {..< length (workers s)}" by auto
  qed
  have proc: "{i. i < length (images s) \<and> status (images s ! i) = Processing} \<subseteq> inflight s"
  proof
    fix i assume "i \<in> {i. i < length (images s) \<and> status (images s ! i) = Processing}"
    then have i: "i < length (images s0)" "status (images s ! i) = Processing" using D(3) by simp_all
    show "i \<in> inflight s"
    proof (rule ccontr)
      assume ni: "i \<notin> inflight s"
      show False
      proof (cases "i \<in> claimed s")
        case True
        with ni have "i \<in> settled s" by (simp add: settled_def)
        from D(13) [OF this] i(2) show False by (simp add: settledAs_def split: sum.splits)
      next
        case False
        with D(11) [OF i(1)] i(2) have "status (images s0 ! i) = Processing" by simp
        with assms(4) i(1) show False by (metis nth_mem)
      qed
    qed
  qed
  have "length (filter (\<lambda>im. status im = Processing) (images s))
      = card {i. i < length (images s) \<and> status (images s ! i) = Processing}"
    by (rule length_filter_conv_card)
  also have "\<dots> \<le> card (g ` {..< length (workers s)})"
    using proc inf by (intro card_mono) auto
  also have "\<dots> \<le> card {..< length (workers s)}" by (rule card_image_le) simp
  also have "\<dots> \<le> 3" by (simp add: len)
  finally have cnt: "length (filter (\<lambda>im. status im = Processing) (images s)) \<le> 3" .
  have "\<not> isProcessing s \<longrightarrow> (\<forall>im\<in>set (images s). status im \<noteq> Processing)"
  proof
    assume "\<not> isProcessing s"
    with run_over(1) [OF inv] proc
    have "\<forall>i<length (images s). status (images s ! i) \<noteq> Processing" by auto
    then show "\<forall>im\<in>set (images s). status im \<noteq> Processing"
      by (simp add: all_set_conv_all_nth)
  qed
  with len cnt show ?thesis by simp
qed

theorem at_most_three_processing_witness:
  "\<not> isProcessing (pages abcd) \<and> apiKey (pages abcd) \<noteq> [] \<and> pendingItemsOf (images (pages abcd)) \<noteq> []
   \<and> map status (images (pages abcd)) = [Pending, Pending, Pending, Pending]
   \<and> exec portABC [] (startBatchProcess (pages abcd)) = Some (startBatchProcess (pages abcd))
   \<and> length (pendingItemsOf (images (pages abcd))) = 4
   \<and> length (workers (startBatchProcess (pages abcd))) = 3
   \<and> map status (images (startBatchProcess (pages abcd))) = [Processing, Processing, Processing, Pending]
   \<and> length (filter (\<lambda>im. status im = Processing) (images (startBatchProcess (pages abcd)))) \<le> 3"
proof -
  have h1: "\<not> isProcessing (pages abcd)"
    by (simp add: run_simps newImage_def appState_def handleCapture_def pages_def abcd_def portABC_def)
  have h2: "apiKey (pages abcd) \<noteq> []"
    by (simp add: run_simps newImage_def appState_def handleCapture_def pages_def abcd_def portABC_def)
  have h3: "pendingItemsOf (images (pages abcd)) \<noteq> []"
    by (simp add: run_simps newImage_def appState_def handleCapture_def pages_def abcd_def portABC_def)
  have h4: "\<forall>im\<in>set (images (pages abcd)). status im \<noteq> Processing"
    by (simp add: run_simps newImage_def appState_def handleCapture_def pages_def abcd_def portABC_def)
  have h4': "map status (images (pages abcd)) = [Pending, Pending, Pending, Pending]"
    by (simp add: run_simps newImage_def appState_def handleCapture_def pages_def abcd_def portABC_def)
  have h5: "exec portABC [] (startBatchProcess (pages abcd)) = Some (startBatchProcess (pages abcd))" by simp
  have l: "length (pendingItemsOf (images (pages abcd))) = 4"
    by (simp add: run_simps newImage_def appState_def handleCapture_def pages_def abcd_def portABC_def)
  have m: "map status (images (startBatchProcess (pages abcd))) = [Processing, Processing, Processing, Pending]"
    by (simp add: run_simps newImage_def appState_def handleCapture_def pages_def abcd_def portABC_def)
  note T = at_most_three_processing [OF h1 h2 h3 h4 h5]
  from T l have a: "length (workers (startBatchProcess (pages abcd))) = 3" by simp
  from T have b: "length (filter (\<lambda>im. status im = Processing) (images (startBatchProcess (pages abcd)))) \<le> 3"
    by blast
  from h1 h2 h3 h4' h5 l m a b show ?thesis by blast
qed

subsection \<open>C6: running the batch again\<close>

text \<open>
  Claim C6, as amended. An item that is completed when a run starts is not among the
  pending items, the port is never called for it, and the run leaves it as it is. When
  a run is over and every call of it resolved, starting the batch again changes nothing
  at all: no item is dispatched and the output stays as it is.
\<close>

theorem rerun_after_all_completed:
  assumes "\<not> isProcessing s0" and "apiKey s0 \<noteq> []" and "pendingItemsOf (images s0) \<noteq> []"
    and "exec port evs (startBatchProcess s0) = Some s"
  shows "(\<forall>i<length (images s0). status (images s0 ! i) = Completed \<longrightarrow>
            i \<notin> set (map index (pendingItems s)) \<and> i \<notin> set (map snd (portCalls s))
            \<and> images s ! i = images s0 ! i)
       \<and> (\<not> isProcessing s \<and> (\<forall>i\<in>set (map index (pendingItems s)). \<exists>t. port i = Inr t)
            \<longrightarrow> startBatchProcess s = s)"
proof -
  have inv: "runInv port s0 s" using assms by (rule runInv_reach)
  then have p: "poolInv port s0 s" by (simp add: runInv_def)
  note D = poolInvD [OF p]
  note P = pendingIndices_start(3) [OF D(1)]
  have a: "\<forall>i<length (images s0). status (images s0 ! i) = Completed \<longrightarrow>
            i \<notin> set (map index (pendingItems s)) \<and> i \<notin> set (map snd (portCalls s))
            \<and> images s ! i = images s0 ! i"
  proof (intro allI impI)
    fix i assume i: "i < length (images s0)" "status (images s0 ! i) = Completed"
    then have np: "i \<notin> set (pendingIndices s)" by (simp add: P)
    then have nc: "i \<notin> claimed s" using claimed_lt(2) [OF p] by blast
    have "i \<notin> set (map snd (portCalls s))" using nc by (simp add: D(9) claimed_def)
    with np nc D(11) [OF i(1)]
    show "i \<notin> set (map index (pendingItems s)) \<and> i \<notin> set (map snd (portCalls s))
            \<and> images s ! i = images s0 ! i"
      by (simp add: pendingIndices_def)
  qed
  have b: "\<not> isProcessing s \<and> (\<forall>i\<in>set (map index (pendingItems s)). \<exists>t. port i = Inr t)
            \<longrightarrow> startBatchProcess s = s"
  proof
    assume h: "\<not> isProcessing s \<and> (\<forall>i\<in>set (map index (pendingItems s)). \<exists>t. port i = Inr t)"
    then have over: "\<not> isProcessing s" by simp
    from h have ok: "\<exists>t. port i = Inr t" if "i \<in> set (pendingIndices s)" for i
      using that unfolding pendingIndices_def by blast
    have st: "settled s = set (pendingIndices s)" using inv over by (rule run_over(3))
    have cl: "claimed s = set (pendingIndices s)" using inv over by (rule run_over(4))
    have "status (images s ! i) = Completed" if i: "i < length (images s)" for i
    proof (cases "i \<in> set (pendingIndices s)")
      case True
      from ok [OF True] obtain t where "port i = Inr t" ..
      with D(13) [of i] True st show ?thesis by (simp add: settledAs_def)
    next
      case False
      from i D(3) have i0: "i < length (images s0)" by simp
      with False P [of i] have "status (images s0 ! i) = Completed" by simp
      with False D(11) [OF i0] cl show ?thesis by simp
    qed
    then have "\<forall>im\<in>set (images s). status im = Completed"
      by (simp only: all_set_conv_all_nth) simp
    then have e: "pendingItemsOf (images s) = []"
      using pendingItemsOf_Nil_iff [of "images s"] by blast
    have "apiKey s = apiKey s0"
      using exec_frame [OF assms(4)] by (simp add: startBatchProcess_apiKey)
    with assms(2) over e show "startBatchProcess s = s"
      by (cases s) (simp add: startBatchProcess_def)
  qed
  from a b show ?thesis by blast
qed

theorem rerun_after_all_completed_witness:
  "\<not> isProcessing secondBatch \<and> apiKey secondBatch \<noteq> [] \<and> pendingItemsOf (images secondBatch) \<noteq> []
   \<and> exec portABC oneItem (startBatchProcess secondBatch) = Some (runTo portABC oneItem secondBatch)
   \<and> 0 < length (images secondBatch) \<and> status (images secondBatch ! 0) = Completed
   \<and> 0 \<notin> set (map index (pendingItems (runTo portABC oneItem secondBatch)))
   \<and> 0 \<notin> set (map snd (portCalls (runTo portABC oneItem secondBatch)))
   \<and> images (runTo portABC oneItem secondBatch) ! 0 = images secondBatch ! 0
   \<and> \<not> isProcessing (runTo portABC oneItem secondBatch)
   \<and> map index (pendingItems (runTo portABC oneItem secondBatch)) = [1]
   \<and> portABC 1 = Inr ''B''
   \<and> map status (images (runTo portABC oneItem secondBatch)) = [Completed, Completed]
   \<and> startBatchProcess (runTo portABC oneItem secondBatch) = runTo portABC oneItem secondBatch"
proof -
  let ?s = "runTo portABC oneItem secondBatch"
  have h1: "\<not> isProcessing secondBatch"
    by (simp add: run_simps newImage_def appState_def handleCapture_def pages_def portABC_def
      oneItem_def runTo_def secondBatch_def)
  have h2: "apiKey secondBatch \<noteq> []"
    by (simp add: run_simps newImage_def appState_def handleCapture_def pages_def portABC_def
      oneItem_def runTo_def secondBatch_def)
  have h3: "pendingItemsOf (images secondBatch) \<noteq> []"
    by (simp add: run_simps newImage_def appState_def handleCapture_def pages_def portABC_def
      oneItem_def runTo_def secondBatch_def)
  have h4: "exec portABC oneItem (startBatchProcess secondBatch) = Some ?s"
    by (simp add: run_simps newImage_def appState_def handleCapture_def pages_def portABC_def
      oneItem_def runTo_def secondBatch_def)
  have c: "0 < length (images secondBatch)" "status (images secondBatch ! 0) = Completed"
    by (simp_all add: run_simps newImage_def appState_def handleCapture_def pages_def portABC_def
      oneItem_def runTo_def secondBatch_def)
  have o: "\<not> isProcessing ?s"
    by (simp add: run_simps newImage_def appState_def handleCapture_def pages_def portABC_def
      oneItem_def runTo_def secondBatch_def)
  have p: "map index (pendingItems ?s) = [1]"
    by (simp add: run_simps newImage_def appState_def handleCapture_def pages_def portABC_def
      oneItem_def runTo_def secondBatch_def)
  have ok: "\<forall>i\<in>set (map index (pendingItems ?s)). \<exists>t. portABC i = Inr t"
    unfolding p by (simp add: portABC_def)
  note T = rerun_after_all_completed [OF h1 h2 h3 h4]
  from T c have a: "0 \<notin> set (map index (pendingItems ?s)) \<and> 0 \<notin> set (map snd (portCalls ?s))
      \<and> images ?s ! 0 = images secondBatch ! 0" by blast
  from T o ok have b: "startBatchProcess ?s = ?s" by blast
  have pb: "portABC 1 = Inr ''B''" by (simp add: portABC_def)
  have m: "map status (images ?s) = [Completed, Completed]"
    by (simp add: run_simps newImage_def appState_def handleCapture_def pages_def portABC_def
      oneItem_def runTo_def secondBatch_def)
  from h1 h2 h3 h4 c a o p pb m b show ?thesis by blast
qed

text \<open>
  After a run in which a call was rejected the second start is not idle: the item in
  status \<open>Error\<close> is not completed, so it is dispatched again, and its chunk is appended
  to the output a second time.
\<close>

theorem rerun_redispatches_failed_item:
  "\<not> isProcessing failedOnce \<and> map status (images failedOnce) = [Error]
   \<and> finalText failedOnce = PLACEHOLDER
   \<and> isProcessing (startBatchProcess failedOnce)
   \<and> portCalls (startBatchProcess failedOnce) = [(0, 0)]
   \<and> exec portFails oneItem (startBatchProcess failedOnce) = Some (runTo portFails oneItem failedOnce)
   \<and> finalText (runTo portFails oneItem failedOnce) = PLACEHOLDER @ BLANK_LINE @ PLACEHOLDER
   \<and> finalText (runTo portFails oneItem failedOnce) \<noteq> finalText failedOnce"
  by (simp add: run_simps newImage_def appState_def handleCapture_def pages_def portFails_def
      oneInOrder_def oneItem_def runTo_def failedOnce_def)

subsection \<open>C7: starts that do nothing\<close>

text \<open>
  Claim C7. While a run is in progress \<open>startBatchProcess\<close> leaves the state as it is;
  without a key it only raises \<open>showKeyModal\<close>; with a key and every item completed (no
  pending item) it leaves the state as it is. In all three cases the items, the output,
  the workers and the log of port calls are unchanged.
\<close>

theorem startBatch_guards:
  "(isProcessing s \<longrightarrow> startBatchProcess s = s) \<and>
   (\<not> isProcessing s \<and> apiKey s = [] \<longrightarrow> startBatchProcess s = s\<lparr>showKeyModal := True\<rparr>) \<and>
   (\<not> isProcessing s \<and> apiKey s \<noteq> [] \<and> (\<forall>im\<in>set (images s). status im = Completed)
      \<longrightarrow> startBatchProcess s = s) \<and>
   (isProcessing s \<or> apiKey s = [] \<or> (\<forall>im\<in>set (images s). status im = Completed)
      \<longrightarrow> images (startBatchProcess s) = images s \<and> finalText (startBatchProcess s) = finalText s
          \<and> workers (startBatchProcess s) = workers s \<and> portCalls (startBatchProcess s) = portCalls s)"
proof -
  have a: "isProcessing s \<longrightarrow> startBatchProcess s = s"
    by (simp add: startBatchProcess_def)
  have b: "\<not> isProcessing s \<and> apiKey s = [] \<longrightarrow> startBatchProcess s = s\<lparr>showKeyModal := True\<rparr>"
    by (simp add: startBatchProcess_def)
  have c: "\<not> isProcessing s \<and> apiKey s \<noteq> [] \<and> (\<forall>im\<in>set (images s). status im = Completed)
      \<longrightarrow> startBatchProcess s = s"
  proof
    assume h: "\<not> isProcessing s \<and> apiKey s \<noteq> [] \<and> (\<forall>im\<in>set (images s). status im = Completed)"
    then have "pendingItemsOf (images s) = []"
      using pendingItemsOf_Nil_iff [of "images s"] by blast
    with h show "startBatchProcess s = s" by (cases s) (simp add: startBatchProcess_def)
  qed
  have d: "isProcessing s \<or> apiKey s = [] \<or> (\<forall>im\<in>set (images s). status im = Completed)
      \<longrightarrow> images (startBatchProcess s) = images s \<and> finalText (startBatchProcess s) = finalText s
          \<and> workers (startBatchProcess s) = workers s \<and> portCalls (startBatchProcess s) = portCalls s"
  proof
    assume "isProcessing s \<or> apiKey s = [] \<or> (\<forall>im\<in>set (images s). status im = Completed)"
    then consider "isProcessing s" | "\<not> isProcessing s" "apiKey s = []"
      | "\<not> isProcessing s" "apiKey s \<noteq> []" "\<forall>im\<in>set (images s). status im = Completed" by blast
    then show "images (startBatchProcess s) = images s \<and> finalText (startBatchProcess s) = finalText s
          \<and> workers (startBatchProcess s) = workers s \<and> portCalls (startBatchProcess s) = portCalls s"
    proof cases
      case 1 with a show ?thesis by simp
    next
      case 2 with b show ?thesis by simp
    next
      case 3 with c show ?thesis by simp
    qed
  qed
  from a b c d show ?thesis by blast
qed

theorem startBatch_guards_witness:
  "isProcessing (startBatchProcess (pages abc))
   \<and> startBatchProcess (startBatchProcess (pages abc)) = startBatchProcess (pages abc)
   \<and> \<not> isProcessing (handleCapture ''a'' ''blob:a'' (appState [])) \<and> apiKey (handleCapture ''a'' ''blob:a'' (appState [])) = []
   \<and> startBatchProcess (handleCapture ''a'' ''blob:a'' (appState [])) = (handleCapture ''a'' ''blob:a'' (appState []))\<lparr>showKeyModal := True\<rparr>
   \<and> images (startBatchProcess (handleCapture ''a'' ''blob:a'' (appState []))) = [newImage ''a'' ''blob:a'']
   \<and> \<not> isProcessing (runTo portABC oneItem (pages [''a''])) \<and> apiKey (runTo portABC oneItem (pages [''a''])) \<noteq> []
   \<and> map status (images (runTo portABC oneItem (pages [''a'']))) = [Completed]
   \<and> startBatchProcess (runTo portABC oneItem (pages [''a''])) = runTo portABC oneItem (pages [''a''])"
proof -
  let ?r = "startBatchProcess (pages abc)"
  let ?k = "handleCapture ''a'' ''blob:a'' (appState [])"
  let ?d = "runTo portABC oneItem (pages [''a''])"
  have r: "isProcessing ?r"
    by (simp add: run_simps newImage_def appState_def handleCapture_def pages_def abc_def portABC_def
      oneItem_def runTo_def)
  have k: "\<not> isProcessing ?k" "apiKey ?k = []" "images ?k = [newImage ''a'' ''blob:a'']"
    by (simp_all add: run_simps newImage_def appState_def handleCapture_def pages_def abc_def
      portABC_def oneItem_def runTo_def)
  have d: "\<not> isProcessing ?d" "apiKey ?d \<noteq> []" "\<forall>im\<in>set (images ?d). status im = Completed"
    by (simp_all add: run_simps newImage_def appState_def handleCapture_def pages_def abc_def
      portABC_def oneItem_def runTo_def)
  have d': "map status (images ?d) = [Completed]"
    by (simp add: run_simps newImage_def appState_def handleCapture_def pages_def abc_def portABC_def
      oneItem_def runTo_def)
  from startBatch_guards [of ?r] r have a: "startBatchProcess ?r = ?r" by blast
  from startBatch_guards [of ?k] k have b: "startBatchProcess ?k = ?k\<lparr>showKeyModal := True\<rparr>" by blast
  from startBatch_guards [of ?k] k have b': "images (startBatchProcess ?k) = [newImage ''a'' ''blob:a'']" by simp
  from startBatch_guards [of ?d] d have c: "startBatchProcess ?d = ?d" by blast
  from r k d(1,2) d' a b b' c show ?thesis by blast
qed

subsection \<open>C8: when an item has a result text\<close>

text \<open>
  Claim C8, as amended. If in the start state an item has a text exactly when it is
  completed (as freshly captured items do), then so it is in every state of the run: an
  item has a result text if and only if its status is \<open>Completed\<close>. An item in status
  \<open>Error\<close> has none.
\<close>

theorem result_text_iff_completed:
  assumes "\<not> isProcessing s0" and "apiKey s0 \<noteq> []" and "pendingItemsOf (images s0) \<noteq> []"
    and "\<forall>im\<in>set (images s0). processedText im \<noteq> None \<longleftrightarrow> status im = Completed"
    and "exec port evs (startBatchProcess s0) = Some s"
  shows "\<forall>im\<in>set (images s). processedText im \<noteq> None \<longleftrightarrow> status im = Completed"
proof -
  have inv: "runInv port s0 s" using assms(1-3,5) by (rule runInv_reach)
  then have p: "poolInv port s0 s" by (simp add: runInv_def)
  note D = poolInvD [OF p]
  have init: "processedText (images s0 ! i) \<noteq> None \<longleftrightarrow> status (images s0 ! i) = Completed"
    if "i < length (images s0)" for i
    using assms(4) that by (metis nth_mem)
  have none0: "processedText (images s0 ! i) = None" if "i \<in> claimed s" for i
  proof -
    from claimed_lt [OF p that] pendingIndices_start(3) [OF D(1), of i]
    have "i < length (images s0)" "status (images s0 ! i) \<noteq> Completed" by simp_all
    with init [of i] show ?thesis by simp
  qed
  have "processedText (images s ! i) \<noteq> None \<longleftrightarrow> status (images s ! i) = Completed"
    if i: "i < length (images s)" for i
  proof (cases "i \<in> claimed s")
    case False
    from i D(3) have i0: "i < length (images s0)" by simp
    with False D(11) [OF i0] init [OF i0] show ?thesis by simp
  next
    case True
    show ?thesis
    proof (cases "i \<in> inflight s")
      case True
      with D(12) [OF True] none0 [OF \<open>i \<in> claimed s\<close>] show ?thesis by simp
    next
      case False
      with True have "i \<in> settled s" by (simp add: settled_def)
      from D(13) [OF this] none0 [OF True] show ?thesis
        by (simp add: settledAs_def split: sum.splits)
    qed
  qed
  then show ?thesis by (simp only: all_set_conv_all_nth) simp
qed

theorem result_text_iff_completed_witness:
  "\<not> isProcessing (pages [''a'']) \<and> apiKey (pages [''a'']) \<noteq> [] \<and> pendingItemsOf (images (pages [''a''])) \<noteq> []
   \<and> map status (images (pages [''a''])) = [Pending]
   \<and> map processedText (images (pages [''a''])) = [None]
   \<and> exec portABC oneItem (startBatchProcess (pages [''a''])) = Some (runTo portABC oneItem (pages [''a'']))
   \<and> map status (images (runTo portABC oneItem (pages [''a'']))) = [Completed]
   \<and> length (images (runTo portABC oneItem (pages [''a'']))) = 1
   \<and> processedText (images (runTo portABC oneItem (pages [''a''])) ! 0) \<noteq> None"
proof -
  have h1: "\<not> isProcessing (pages [''a''])"
    by (simp add: run_simps newImage_def appState_def handleCapture_def pages_def portABC_def
      oneItem_def runTo_def)
  have h2: "apiKey (pages [''a'']) \<noteq> []"
    by (simp add: run_simps newImage_def appState_def handleCapture_def pages_def portABC_def
      oneItem_def runTo_def)
  have h3: "pendingItemsOf (images (pages [''a''])) \<noteq> []"
    by (simp add: run_simps newImage_def appState_def handleCapture_def pages_def portABC_def
      oneItem_def runTo_def)
  have h4: "\<forall>im\<in>set (images (pages [''a''])). processedText im \<noteq> None \<longleftrightarrow> status im = Completed"
    by (simp add: run_simps newImage_def appState_def handleCapture_def pages_def portABC_def
      oneItem_def runTo_def)
  have h5: "exec portABC oneItem (startBatchProcess (pages [''a''])) = Some (runTo portABC oneItem (pages [''a'']))"
    by (simp add: run_simps newImage_def appState_def handleCapture_def pages_def portABC_def
      oneItem_def runTo_def)
  have i: "map status (images (pages [''a''])) = [Pending]"
    "map processedText (images (pages [''a''])) = [None]"
      by (simp_all add: run_simps newImage_def appState_def handleCapture_def pages_def portABC_def
      oneItem_def runTo_def)
  have m: "map status (images (runTo portABC oneItem (pages [''a'']))) = [Completed]"
    "length (images (runTo portABC oneItem (pages [''a'']))) = 1"
    by (simp_all add: run_simps newImage_def appState_def handleCapture_def pages_def portABC_def
      oneItem_def runTo_def)
  then have st: "status (images (runTo portABC oneItem (pages [''a''])) ! 0) = Completed"
    by (simp add: nth_map [symmetric] del: nth_map)
  have "images (runTo portABC oneItem (pages [''a''])) ! 0 \<in> set (images (runTo portABC oneItem (pages [''a''])))"
    using m(2) by simp
  with result_text_iff_completed [OF h1 h2 h3 h4 h5] st
  have "processedText (images (runTo portABC oneItem (pages [''a''])) ! 0) \<noteq> None" by blast
  with h1 h2 h3 h5 i m show ?thesis by blast
qed

text \<open>
  The claim as stated gives an item in status \<open>Error\<close> the placeholder as its result
  text. The code writes the placeholder to the output only.
\<close>

theorem error_item_has_no_text:
  "exec portFails oneInOrder (startBatchProcess (pages [''a''])) = Some failedOnce
   \<and> map status (images failedOnce) = [Error]
   \<and> map processedText (images failedOnce) = [None]
   \<and> finalText failedOnce = PLACEHOLDER"
  by (simp add: run_simps newImage_def appState_def handleCapture_def pages_def portFails_def
      oneInOrder_def runTo_def failedOnce_def)

subsection \<open>C9: the progress of a claimed item\<close>

text \<open>
  Claim C9. Take a run started in a state in which every pending item has progress 0,
  as ingestion creates them. Whenever a worker takes an item from \<open>Pending\<close> to
  \<open>Processing\<close>, in the first segment of \<open>startBatchProcess\<close> or when it resumes its loop
  in any later state of the run, the item's progress is 0 after the transition. Pending
  items have progress 0 in every state of the run and after a further capture, so the
  next run starts in such a state again.
\<close>

theorem pending_claim_starts_at_zero:
  assumes "\<not> isProcessing s0" and "apiKey s0 \<noteq> []" and "pendingItemsOf (images s0) \<noteq> []"
    and "\<forall>im\<in>set (images s0). status im = Pending \<longrightarrow> progress im = 0"
    and "exec port evs (startBatchProcess s0) = Some s"
  shows "(\<forall>w it. workerAt (startBatchProcess s0) w = Some (Awaiting it)
             \<and> status (images s0 ! index it) = Pending \<longrightarrow>
           status (images (startBatchProcess s0) ! index it) = Processing
           \<and> progress (images (startBatchProcess s0) ! index it) = 0)
       \<and> (\<forall>w. workerAt s w = Some AtLoopHead \<and> queuePointer s < length (pendingItems s)
             \<and> status (images s ! index (pendingItems s ! queuePointer s)) = Pending \<longrightarrow>
           step port (Resume w) s = Some (runWorker w s)
           \<and> workerAt (runWorker w s) w = Some (Awaiting (pendingItems s ! queuePointer s))
           \<and> status (images (runWorker w s) ! index (pendingItems s ! queuePointer s)) = Processing
           \<and> progress (images (runWorker w s) ! index (pendingItems s ! queuePointer s)) = 0)
       \<and> (\<forall>im\<in>set (images s). status im = Pending \<longrightarrow> progress im = 0)
       \<and> (\<forall>im\<in>set (images (handleCapture ident url s)). status im = Pending \<longrightarrow> progress im = 0)"
proof -
  have z0: "pendingAtZero (images s0)" using assms(4) by (simp add: pendingAtZero_def)
  have inv0: "runInv port s0 (startBatchProcess s0)" using assms(1-3) by (rule runInv_start)
  have inv: "runInv port s0 s" using inv0 assms(5) by (rule runInv_exec)
  have z: "pendingAtZero (images s)"
    using inv0 pendingAtZero_start [OF z0] assms(5) by (rule pendingAtZero_exec)
  from inv0 have p0: "poolInv port s0 (startBatchProcess s0)" by (simp add: runInv_def)
  from inv have p: "poolInv port s0 s" by (simp add: runInv_def)
  note D0 = poolInvD [OF p0]
  note D = poolInvD [OF p]
  have a: "\<forall>w it. workerAt (startBatchProcess s0) w = Some (Awaiting it)
             \<and> status (images s0 ! index it) = Pending \<longrightarrow>
           status (images (startBatchProcess s0) ! index it) = Processing
           \<and> progress (images (startBatchProcess s0) ! index it) = 0"
  proof (intro allI impI)
    fix w it
    assume h: "workerAt (startBatchProcess s0) w = Some (Awaiting it)
             \<and> status (images s0 ! index it) = Pending"
    then have fl: "index it \<in> inflight (startBatchProcess s0)"
      by (auto simp: inflight_def awaits_def)
    with D0(6) have "index it \<in> claimed (startBatchProcess s0)" by auto
    then have lt: "index it < length (images s0)" by (rule claimed_lt [OF p0])
    have "map progress (images (startBatchProcess s0)) ! index it = map progress (images s0) ! index it"
      by (simp only: progress_startBatchProcess)
    with lt D0(3) have "progress (images (startBatchProcess s0) ! index it) = progress (images s0 ! index it)"
      by simp
    moreover have "progress (images s0 ! index it) = 0"
      using z0 lt h by (simp add: pendingAtZero_nth)
    ultimately show "status (images (startBatchProcess s0) ! index it) = Processing
           \<and> progress (images (startBatchProcess s0) ! index it) = 0"
      using D0(12) [OF fl] by simp
  qed
  have b: "\<forall>w. workerAt s w = Some AtLoopHead \<and> queuePointer s < length (pendingItems s)
             \<and> status (images s ! index (pendingItems s ! queuePointer s)) = Pending \<longrightarrow>
           step port (Resume w) s = Some (runWorker w s)
           \<and> workerAt (runWorker w s) w = Some (Awaiting (pendingItems s ! queuePointer s))
           \<and> status (images (runWorker w s) ! index (pendingItems s ! queuePointer s)) = Processing
           \<and> progress (images (runWorker w s) ! index (pendingItems s ! queuePointer s)) = 0"
  proof (intro allI impI)
    fix w
    assume h: "workerAt s w = Some AtLoopHead \<and> queuePointer s < length (pendingItems s)
             \<and> status (images s ! index (pendingItems s ! queuePointer s)) = Pending"
    define c where "c = index (pendingItems s ! queuePointer s)"
    from h have w: "workerAt s w = Some AtLoopHead" and q: "queuePointer s < length (pendingItems s)"
      and pe: "status (images s ! c) = Pending" by (simp_all add: c_def)
    have "c \<in> set (pendingIndices s)" using q by (simp add: c_def pendingIndices_def)
    then have "c < length (images s0)"
      using pendingIndices_start(3) [OF D(1)] by simp
    then have lt: "c < length (images s)" using D(3) by simp
    from claim_keeps_progress [OF w q c_def [symmetric] lt, of port]
    have k: "step port (Resume w) s = Some (runWorker w s)"
      "workerAt (runWorker w s) w = Some (Awaiting (pendingItems s ! queuePointer s))"
      "status (images (runWorker w s) ! c) = Processing"
      "progress (images (runWorker w s) ! c) = progress (images s ! c)"
      using lt by simp_all
    moreover have "progress (images s ! c) = 0" using z lt pe by (simp add: pendingAtZero_nth)
    ultimately show "step port (Resume w) s = Some (runWorker w s)
           \<and> workerAt (runWorker w s) w = Some (Awaiting (pendingItems s ! queuePointer s))
           \<and> status (images (runWorker w s) ! index (pendingItems s ! queuePointer s)) = Processing
           \<and> progress (images (runWorker w s) ! index (pendingItems s ! queuePointer s)) = 0"
      by (simp add: c_def)
  qed
  have c: "\<forall>im\<in>set (images s). status im = Pending \<longrightarrow> progress im = 0"
    using z by (simp add: pendingAtZero_def)
  have d: "\<forall>im\<in>set (images (handleCapture ident url s)). status im = Pending \<longrightarrow> progress im = 0"
    using pendingAtZero_handleCapture [OF z] by (simp add: pendingAtZero_def)
  from a b c d show ?thesis by blast
qed

theorem pending_claim_starts_at_zero_witness:
  "\<not> isProcessing (pages abcd) \<and> apiKey (pages abcd) \<noteq> [] \<and> pendingItemsOf (images (pages abcd)) \<noteq> []
   \<and> map status (images (pages abcd)) = [Pending, Pending, Pending, Pending]
   \<and> map progress (images (pages abcd)) = [0, 0, 0, 0]
   \<and> exec portABC [Progress 0 (2 / 10), Settle 0] (startBatchProcess (pages abcd))
        = Some (runTo portABC [Progress 0 (2 / 10), Settle 0] (pages abcd))
   \<and> workerAt (startBatchProcess (pages abcd)) 0 = Some (Awaiting \<lparr>img = newImage ''a'' ''blob:a'', index = 0\<rparr>)
   \<and> status (images (startBatchProcess (pages abcd)) ! 0) = Processing
   \<and> progress (images (startBatchProcess (pages abcd)) ! 0) = 0
   \<and> workerAt (runTo portABC [Progress 0 (2 / 10), Settle 0] (pages abcd)) 0 = Some AtLoopHead
   \<and> queuePointer (runTo portABC [Progress 0 (2 / 10), Settle 0] (pages abcd)) = 3
   \<and> map index (pendingItems (runTo portABC [Progress 0 (2 / 10), Settle 0] (pages abcd))) = [0, 1, 2, 3]
   \<and> map status (images (runTo portABC [Progress 0 (2 / 10), Settle 0] (pages abcd)))
        = [Completed, Processing, Processing, Pending]
   \<and> map progress (images (runTo portABC [Progress 0 (2 / 10), Settle 0] (pages abcd))) = [2 / 10, 0, 0, 0]
   \<and> status (images (runWorker 0 (runTo portABC [Progress 0 (2 / 10), Settle 0] (pages abcd))) ! 3) = Processing
   \<and> progress (images (runWorker 0 (runTo portABC [Progress 0 (2 / 10), Settle 0] (pages abcd))) ! 3) = 0"
proof -
  let ?init = "pages abcd"
  let ?s = "runTo portABC [Progress 0 (2 / 10), Settle 0] (pages abcd)"
  let ?it = "\<lparr>img = newImage ''a'' ''blob:a'', index = 0\<rparr>"
  have h1: "\<not> isProcessing ?init" by (simp add: run_simps newImage_def appState_def handleCapture_def pages_def abcd_def
      portABC_def runTo_def)
  have h2: "apiKey ?init \<noteq> []" by (simp add: run_simps newImage_def appState_def handleCapture_def pages_def abcd_def
      portABC_def runTo_def)
  have h3: "pendingItemsOf (images ?init) \<noteq> []" by (simp add: run_simps newImage_def appState_def handleCapture_def pages_def abcd_def
      portABC_def runTo_def)
  have h4: "\<forall>im\<in>set (images ?init). status im = Pending \<longrightarrow> progress im = 0" by (simp add: run_simps newImage_def appState_def handleCapture_def pages_def abcd_def
      portABC_def runTo_def)
  have h5: "exec portABC [Progress 0 (2 / 10), Settle 0] (startBatchProcess ?init) = Some ?s"
    by (simp add: run_simps newImage_def appState_def handleCapture_def pages_def abcd_def
      portABC_def runTo_def)
  have i: "map status (images ?init) = [Pending, Pending, Pending, Pending]"
    "map progress (images ?init) = [0, 0, 0, 0]" by (simp_all add: run_simps newImage_def appState_def handleCapture_def pages_def abcd_def
      portABC_def runTo_def)
  have a1: "workerAt (startBatchProcess ?init) 0 = Some (Awaiting ?it)" by (simp add: run_simps newImage_def appState_def handleCapture_def pages_def abcd_def
      portABC_def runTo_def)
  have a2: "status (images ?init ! index ?it) = Pending" by (simp add: run_simps newImage_def appState_def handleCapture_def pages_def abcd_def
      portABC_def runTo_def)
  have b1: "workerAt ?s 0 = Some AtLoopHead" by (simp add: run_simps newImage_def appState_def handleCapture_def pages_def abcd_def
      portABC_def runTo_def)
  have b2: "queuePointer ?s = 3" "length (pendingItems ?s) = 4" by (simp_all add: run_simps newImage_def appState_def handleCapture_def pages_def abcd_def
      portABC_def runTo_def)
  then have b2': "queuePointer ?s < length (pendingItems ?s)" by simp
  have b3: "index (pendingItems ?s ! queuePointer ?s) = 3" by (simp add: run_simps newImage_def appState_def handleCapture_def pages_def abcd_def
      portABC_def runTo_def)
  have b4: "status (images ?s ! index (pendingItems ?s ! queuePointer ?s)) = Pending" by (simp add: run_simps newImage_def appState_def handleCapture_def pages_def abcd_def
      portABC_def runTo_def)
  have m: "map index (pendingItems ?s) = [0, 1, 2, 3]"
    "map status (images ?s) = [Completed, Processing, Processing, Pending]"
    "map progress (images ?s) = [2 / 10, 0, 0, 0]" by (simp_all add: run_simps newImage_def appState_def handleCapture_def pages_def abcd_def
      portABC_def runTo_def)
  note T = pending_claim_starts_at_zero [OF h1 h2 h3 h4 h5]
  from T a1 a2 have a: "status (images (startBatchProcess ?init) ! index ?it) = Processing
      \<and> progress (images (startBatchProcess ?init) ! index ?it) = 0" by blast
  then have a': "status (images (startBatchProcess ?init) ! 0) = Processing"
    "progress (images (startBatchProcess ?init) ! 0) = 0" by simp_all
  from T b1 b2' b4 have "status (images (runWorker 0 ?s) ! index (pendingItems ?s ! queuePointer ?s)) = Processing
      \<and> progress (images (runWorker 0 ?s) ! index (pendingItems ?s ! queuePointer ?s)) = 0" by blast
  then have b: "status (images (runWorker 0 ?s) ! 3) = Processing"
    "progress (images (runWorker 0 ?s) ! 3) = 0" by (simp_all only: b3)
  from h1 h2 h3 i h5 a1 a' b1 b2(1) m b show ?thesis by blast
qed

subsection \<open>C10: the transcription call never resolves to the empty string\<close>

text \<open>
  Claim C10. A resolved call of \<open>processImageOCR\<close>, in either revision, never carries the
  empty string, and a backend answer whose text is missing or empty resolves to the fixed
  string \<open>NO_TEXT\<close>.
\<close>

theorem processImageOCR_never_empty:
  "(snd (processImageOCR env key) = Inr t \<longrightarrow> t \<noteq> []) \<and>
   (snd (processImageOCR_resized env key) = Inr t \<longrightarrow> t \<noteq> []) \<and>
   (imageLoads env \<and> hasContext env \<and> key \<noteq> [] \<and> backend env \<in> {BackendResponse None, BackendResponse (Some [])}
      \<longrightarrow> snd (processImageOCR env key) = Inr NO_TEXT \<and> snd (processImageOCR_resized env key) = Inr NO_TEXT)"
proof -
  have fallback: "\<And>txt. orElse txt NO_TEXT \<noteq> []"
    by (rule orElse_nonempty) (simp add: NO_TEXT_def)
  have a: "snd (processImageOCR env key) = Inr t \<longrightarrow> t \<noteq> []"
    using fallback by (auto simp: processImageOCR_def split: if_splits backend.splits)
  have b: "snd (processImageOCR_resized env key) = Inr t \<longrightarrow> t \<noteq> []"
    using fallback by (auto simp: processImageOCR_resized_def split: if_splits backend.splits)
  have c: "imageLoads env \<and> hasContext env \<and> key \<noteq> [] \<and> backend env \<in> {BackendResponse None, BackendResponse (Some [])}
      \<longrightarrow> snd (processImageOCR env key) = Inr NO_TEXT \<and> snd (processImageOCR_resized env key) = Inr NO_TEXT"
    by (auto simp: processImageOCR_def processImageOCR_resized_def orElse_def)
  from a b c show ?thesis by blast
qed

theorem processImageOCR_never_empty_witness:
  "snd (processImageOCR \<lparr>imageLoads = True, hasContext = True, backend = BackendResponse (Some [])\<rparr> ''k'') = Inr NO_TEXT
   \<and> snd (processImageOCR_resized \<lparr>imageLoads = True, hasContext = True, backend = BackendResponse (Some [])\<rparr> ''k'') = Inr NO_TEXT
   \<and> NO_TEXT \<noteq> []"
  using processImageOCR_never_empty
    [of "\<lparr>imageLoads = True, hasContext = True, backend = BackendResponse (Some [])\<rparr>" "''k''" NO_TEXT]
  by simp

end
